theory Spec2Isabelle
  imports Main "HOL-Library.Word"
begin

unbundle bit_operations_syntax

section \<open>Values exchanged with the outside\<close>

text \<open>
  The values \<open>json.loads\<close> and \<open>r.json()\<close> produce. A Python float is its IEEE
  binary64 bit pattern; an object keeps its items in insertion order.
\<close>

datatype json =
    JNull
  | JBool bool
  | JInt int
  | JFloat "64 word"
  | JStr string
  | JArr "json list"
  | JObj "(string \<times> json) list"

text \<open>Python truth value of a JSON value: \<open>None\<close>, \<open>False\<close>, zero (both float
  zeros), and the empty string, list and dict are false.\<close>

fun truthy :: "json \<Rightarrow> bool" where
  "truthy JNull = False"
| "truthy (JBool b) = b"
| "truthy (JInt i) = (i \<noteq> 0)"
| "truthy (JFloat f) = (f AND 0x7FFFFFFFFFFFFFFF \<noteq> 0)"
| "truthy (JStr s) = (s \<noteq> [])"
| "truthy (JArr xs) = (xs \<noteq> [])"
| "truthy (JObj kvs) = (kvs \<noteq> [])"

text \<open>Truth value of a string that may be \<open>None\<close>.\<close>

definition truthy_str :: "string option \<Rightarrow> bool" where
  "truthy_str s = (s \<noteq> None \<and> s \<noteq> Some [])"

text \<open>\<open>d.get(k, default)\<close> and \<open>d.get(k)\<close> on a dict, whose keys are distinct.\<close>

definition dict_get_default :: "(string \<times> json) list \<Rightarrow> string \<Rightarrow> json \<Rightarrow> json" where
  "dict_get_default d k dflt = (case map_of d k of Some v \<Rightarrow> v | None \<Rightarrow> dflt)"

definition dict_get :: "(string \<times> json) list \<Rightarrow> string \<Rightarrow> json" where
  "dict_get d k = dict_get_default d k JNull"

text \<open>
  Exceptions that the code can meet. \<open>ProgrammingError\<close> is what sqlite3 raises for a
  parameter of a type it cannot bind (\<open>InterfaceError\<close> before Python 3.11).
\<close>

datatype exn =
    RequestException string
  | RuntimeError string
  | JSONDecodeError string
  | AttributeError
  | ProgrammingError
  | OverflowError

text \<open>\<open>str(n)\<close> for an integer.\<close>

definition digit_char :: "nat \<Rightarrow> char" where
  "digit_char d = ''0123456789'' ! d"

fun str_nat :: "nat \<Rightarrow> string" where
  "str_nat n = (if n < 10 then [digit_char n] else str_nat (n div 10) @ [digit_char (n mod 10)])"

declare str_nat.simps [simp del]

definition str_int :: "int \<Rightarrow> string" where
  "str_int i = (if i < 0 then CHR ''-'' # str_nat (nat (- i)) else str_nat (nat i))"

section \<open>The record store\<close>

text \<open>
  A row of \<open>movies\<close> as the cursor returns it: \<open>(movieId, title, year, genres)\<close>.
\<close>

type_synonym movie_row = "int \<times> string \<times> int option \<times> string option"

text \<open>
  A value bound to a statement parameter. The sqlite3 module binds \<open>None\<close>, int
  (bool is an int), float and str; an int outside 64 bits raises OverflowError and a list
  or dict has no adapter.
\<close>

datatype sql_value = SqlNull | SqlInt int | SqlReal "64 word" | SqlText string

fun bind_param :: "json \<Rightarrow> exn + sql_value" where
  "bind_param JNull = Inr SqlNull"
| "bind_param (JBool b) = Inr (SqlInt (if b then 1 else 0))"
| "bind_param (JInt i) =
     (if - (2 ^ 63) \<le> i \<and> i < 2 ^ 63 then Inr (SqlInt i) else Inl OverflowError)"
| "bind_param (JFloat f) = Inr (SqlReal f)"
| "bind_param (JStr s) = Inr (SqlText s)"
| "bind_param (JArr xs) = Inl ProgrammingError"
| "bind_param (JObj kvs) = Inl ProgrammingError"

text \<open>
  A row of \<open>movies_enriched\<close>, recorded as the ten values bound to the
  \<open>INSERT OR REPLACE\<close>; the column \<open>other_fields\<close> holds \<open>json.dumps(other)\<close>, recorded
  here as the dict \<open>other\<close> it serialises. The table is keyed by its primary key.
\<close>

record enriched_row =
  row_movieId :: int
  row_title :: string
  row_year :: "int option"
  row_genres :: "string option"
  row_director :: sql_value
  row_plot :: sql_value
  row_box_office :: sql_value
  row_imdb_rating :: "64 word option"
  row_imdb_id :: sql_value
  row_other_fields :: "(string \<times> json) list"

section \<open>The cache file, the network and the trace\<close>

text \<open>
  The cache file: absent, unreadable, or holding a JSON object, as \<open>save_cache\<close> writes
  it. The cache and the mock mapping are dicts from keys to JSON values.
\<close>

datatype cache_file =
    Missing
  | Unreadable
  | Stored "string \<rightharpoonup> json"

record response =
  status_code :: int
  json_body :: "exn + json"

text \<open>
  What lies outside the program: \<open>requests.get\<close>, which answers the n-th call of a run
  with a response or raises, and the builtin \<open>float\<close>, with \<open>None\<close> where it raises.
\<close>

record sys =
  requests_get :: "nat \<Rightarrow> (string \<times> string) list \<Rightarrow> exn + response"
  py_float :: "json \<Rightarrow> 64 word option"

datatype log_msg =
    NoKeySkip string
  | RequestFailed string "int option" exn
  | EnrichmentDone nat nat nat
  | MockModeLoaded
  | SkippingEnrichment

datatype event =
    Log log_msg
  | QueryOmdb string "int option"
  | SaveCache
  | Sleep
  | Upsert enriched_row
  | Commit

text \<open>
  The state of a run of \<open>enrich_movies\<close>: the cache file, the two tables, the trace of
  effects, the number of calls of \<open>requests.get\<close>, and the local variables of the loop.
\<close>

record state =
  cache_file :: cache_file
  movies :: "movie_row list"
  movies_enriched :: "int \<rightharpoonup> enriched_row"
  trace :: "event list"
  calls :: nat
  cache :: "string \<rightharpoonup> json"
  processed :: nat
  hits :: nat
  misses :: nat

definition emit :: "event \<Rightarrow> state \<Rightarrow> state" where
  "emit e st = st\<lparr>trace := trace st @ [e]\<rparr>"

definition log :: "log_msg \<Rightarrow> state \<Rightarrow> state" where
  "log msg st = emit (Log msg) st"

definition load_cache :: "cache_file \<Rightarrow> (string \<rightharpoonup> json)" where
  "load_cache f = (case f of Missing \<Rightarrow> Map.empty | Unreadable \<Rightarrow> Map.empty | Stored m \<Rightarrow> m)"

definition save_cache :: "state \<Rightarrow> state" where
  "save_cache st = emit SaveCache (st\<lparr>cache_file := Stored (cache st)\<rparr>)"

definition sleep :: "state \<Rightarrow> state" where
  "sleep st = emit Sleep st"

section \<open>query_omdb\<close>

definition query_params :: "string \<Rightarrow> int option \<Rightarrow> string option \<Rightarrow> (string \<times> string) list" where
  "query_params title year api_key =
     [(''t'', title)]
     @ (case year of Some y \<Rightarrow> if y \<noteq> 0 then [(''y'', str_int y)] else [] | None \<Rightarrow> [])
     @ (case api_key of Some k \<Rightarrow> if k \<noteq> [] then [(''apikey'', k)] else [] | None \<Rightarrow> [])"

definition query_omdb ::
  "sys \<Rightarrow> string \<Rightarrow> int option \<Rightarrow> string option \<Rightarrow> state \<Rightarrow> (exn + json) \<times> state" where
  "query_omdb sys title year api_key st =
     (let st1 = emit (QueryOmdb title year) (st\<lparr>calls := calls st + 1\<rparr>) in
      case requests_get sys (calls st) (query_params title year api_key) of
        Inl e \<Rightarrow> (Inl e, st1)
      | Inr r \<Rightarrow>
          if status_code r \<noteq> 200
          then (Inl (RuntimeError (''OMDb HTTP '' @ str_int (status_code r))), st1)
          else (json_body r, st1))"

section \<open>enrich_movies\<close>

definition cache_key :: "string \<Rightarrow> int option \<Rightarrow> string" where
  "cache_key title year =
     title @ ''|'' @ (case year of None \<Rightarrow> ''None'' | Some y \<Rightarrow> str_int y)"

text \<open>
  Lines 144 to 164: the value for the record, from the cache or from the miss branch.
  \<open>Skipped\<close> is the \<open>continue\<close> of line 154.
\<close>

datatype resolution = Resolved json state | Skipped state

definition cache_miss :: "string \<Rightarrow> json \<Rightarrow> state \<Rightarrow> resolution" where
  "cache_miss key data st =
     Resolved data
       (sleep (save_cache (st\<lparr>cache := (cache st)(key \<mapsto> data), misses := misses st + 1\<rparr>)))"

definition resolve ::
  "sys \<Rightarrow> string option \<Rightarrow> (string \<rightharpoonup> json) option \<Rightarrow> movie_row \<Rightarrow> state \<Rightarrow> resolution" where
  "resolve sys api_key mock_cache row st =
     (case row of (movieId, title, year, genres) \<Rightarrow>
       (let key = cache_key title year in
         (case cache st key of
            Some data \<Rightarrow> Resolved data (st\<lparr>hits := hits st + 1\<rparr>)
          | None \<Rightarrow>
              (case mock_cache of
                 Some mock \<Rightarrow>
                   cache_miss key (case mock key of Some v \<Rightarrow> v | None \<Rightarrow> JNull) st
               | None \<Rightarrow>
                   if \<not> truthy_str api_key
                   then Skipped (log (NoKeySkip key) st)
                   else
                     (case query_omdb sys title year api_key st of
                        (res, st1) \<Rightarrow>
                          (case res of
                             Inr data \<Rightarrow> cache_miss key data st1
                           | Inl e \<Rightarrow>
                               cache_miss key JNull
                                 (log (RequestFailed title year e) st1)))))))"

text \<open>The second conjunct of line 165, on a dict.\<close>

definition response_ok :: "(string \<times> json) list \<Rightarrow> bool" where
  "response_ok d = (dict_get_default d ''Response'' (JStr ''True'') \<noteq> JStr ''False'')"

text \<open>Lines 169 to 173.\<close>

definition imdb_rating_of :: "sys \<Rightarrow> (string \<times> json) list \<Rightarrow> 64 word option" where
  "imdb_rating_of sys d =
     (if truthy (dict_get d ''imdbRating'') \<and> dict_get d ''imdbRating'' \<noteq> JStr ''N/A''
      then py_float sys (dict_get d ''imdbRating'')
      else None)"

text \<open>Line 175.\<close>

definition excluded_keys :: "string list" where
  "excluded_keys =
     [''Title'', ''Year'', ''Director'', ''Plot'', ''BoxOffice'', ''imdbRating'', ''imdbID'',
      ''Genre'']"

definition other_of :: "(string \<times> json) list \<Rightarrow> (string \<times> json) list" where
  "other_of d = filter (\<lambda>(k, v). k \<notin> set excluded_keys) d"

text \<open>Lines 166 to 190: the parameters of the statement, bound in order.\<close>

definition build_row :: "sys \<Rightarrow> movie_row \<Rightarrow> (string \<times> json) list \<Rightarrow> exn + enriched_row" where
  "build_row sys row d =
     (case row of (movieId, title, year, genres) \<Rightarrow>
       (case bind_param (dict_get d ''Director'') of
          Inl e \<Rightarrow> Inl e
        | Inr director \<Rightarrow>
       (case bind_param (dict_get d ''Plot'') of
          Inl e \<Rightarrow> Inl e
        | Inr plot \<Rightarrow>
       (case bind_param (dict_get d ''BoxOffice'') of
          Inl e \<Rightarrow> Inl e
        | Inr box_office \<Rightarrow>
       (case bind_param (dict_get d ''imdbID'') of
          Inl e \<Rightarrow> Inl e
        | Inr imdb_id \<Rightarrow>
            Inr \<lparr>row_movieId = movieId, row_title = title, row_year = year,
                 row_genres = genres, row_director = director, row_plot = plot,
                 row_box_office = box_office, row_imdb_rating = imdb_rating_of sys d,
                 row_imdb_id = imdb_id, row_other_fields = other_of d\<rparr>)))))"

text \<open>
  Lines 165 to 190 up to the call of \<open>execute\<close>: the row to write, \<open>None\<close> when the
  condition of line 165 is false. \<open>get\<close> on a true value that is no dict raises
  AttributeError.
\<close>

definition enriched_of :: "sys \<Rightarrow> movie_row \<Rightarrow> json \<Rightarrow> exn + enriched_row option" where
  "enriched_of sys row data =
     (if \<not> truthy data then Inr None
      else case data of
             JObj d \<Rightarrow>
               if response_ok d
               then (case build_row sys row d of Inl e \<Rightarrow> Inl e | Inr r \<Rightarrow> Inr (Some r))
               else Inr None
           | _ \<Rightarrow> Inl AttributeError)"

definition upsert_enriched :: "enriched_row \<Rightarrow> state \<Rightarrow> state" where
  "upsert_enriched r st =
     emit (Upsert r) (st\<lparr>movies_enriched := (movies_enriched st)(row_movieId r \<mapsto> r)\<rparr>)"

definition commit :: "state \<Rightarrow> state" where
  "commit st = emit Commit st"

text \<open>Lines 165 to 192. A raise leaves the state as it was when raised.\<close>

definition persist :: "sys \<Rightarrow> movie_row \<Rightarrow> json \<Rightarrow> state \<Rightarrow> (exn \<times> state) + state" where
  "persist sys row data st =
     (case enriched_of sys row data of
        Inl e \<Rightarrow> Inl (e, st)
      | Inr None \<Rightarrow> Inr st
      | Inr (Some r) \<Rightarrow>
          Inr ((commit (upsert_enriched r st))\<lparr>processed := processed st + 1\<rparr>))"

text \<open>The body of the loop, lines 143 to 192.\<close>

definition enrich_step ::
  "sys \<Rightarrow> string option \<Rightarrow> (string \<rightharpoonup> json) option \<Rightarrow> movie_row \<Rightarrow> state
     \<Rightarrow> (exn \<times> state) + state" where
  "enrich_step sys api_key mock_cache row st =
     (case resolve sys api_key mock_cache row st of
        Skipped st1 \<Rightarrow> Inr st1
      | Resolved data st1 \<Rightarrow> persist sys row data st1)"

text \<open>The loop of line 142; an exception leaves it.\<close>

fun enrich_loop ::
  "sys \<Rightarrow> string option \<Rightarrow> (string \<rightharpoonup> json) option \<Rightarrow> movie_row list \<Rightarrow> state
     \<Rightarrow> (exn \<times> state) + state" where
  "enrich_loop sys api_key mock_cache [] st = Inr st"
| "enrich_loop sys api_key mock_cache (row # rows) st =
     (case enrich_step sys api_key mock_cache row st of
        Inl err \<Rightarrow> Inl err
      | Inr st1 \<Rightarrow> enrich_loop sys api_key mock_cache rows st1)"

text \<open>
  \<open>enrich_movies\<close>, lines 134 to 194. The argument state gives the files and tables the
  run starts from; its loop variables are set afresh.
\<close>

definition init_run :: "state \<Rightarrow> state" where
  "init_run w =
     w\<lparr>cache := load_cache (cache_file w), calls := 0, processed := 0, hits := 0, misses := 0\<rparr>"

definition enrich_movies ::
  "sys \<Rightarrow> string option \<Rightarrow> (string \<rightharpoonup> json) option \<Rightarrow> state \<Rightarrow> (exn \<times> state) + state" where
  "enrich_movies sys api_key mock_cache w =
     (case enrich_loop sys api_key mock_cache (movies w) (init_run w) of
        Inl err \<Rightarrow> Inl err
      | Inr st \<Rightarrow>
          Inr (log (EnrichmentDone (processed st) (hits st) (misses st)) (save_cache st)))"

text \<open>The state a run leaves behind, whether it returned or raised.\<close>

definition left_by :: "(exn \<times> state) + state \<Rightarrow> state" where
  "left_by res = (case res of Inl (e, st) \<Rightarrow> st | Inr st \<Rightarrow> st)"

text \<open>
  \<open>main\<close>, line 205 and lines 223 to 235: which enrichment runs. The tables are those
  the import of lines 218 to 221 leaves; \<open>env_key\<close> is \<open>OMDB_API_KEY\<close>.
\<close>

record args =
  arg_omdb_key :: "string option"
  arg_use_omdb :: bool
  arg_mock_omdb :: bool

definition main_enrich ::
  "sys \<Rightarrow> args \<Rightarrow> string option \<Rightarrow> state \<Rightarrow> (exn \<times> state) + state" where
  "main_enrich sys a env_key w =
     (let omdb_key =
            (if truthy_str (arg_omdb_key a) then arg_omdb_key a
             else if arg_use_omdb a then env_key else None)
      in if arg_mock_omdb a
         then enrich_movies sys None (Some (load_cache (cache_file w))) (log MockModeLoaded w)
         else if truthy_str omdb_key then enrich_movies sys omdb_key None w
         else Inr (log SkippingEnrichment w))"

section \<open>What a run writes, as a function of the cache it ends with\<close>

definition row_key :: "movie_row \<Rightarrow> string" where
  "row_key row = (case row of (movieId, title, year, genres) \<Rightarrow> cache_key title year)"

text \<open>
  The rows a pass over the table writes when every value comes from the mapping \<open>c\<close>:
  a record whose key is not in \<open>c\<close> writes nothing, and the pass ends where
  normalising raises.
\<close>

fun replay_rows :: "sys \<Rightarrow> (string \<rightharpoonup> json) \<Rightarrow> movie_row list \<Rightarrow> enriched_row list" where
  "replay_rows sys c [] = []"
| "replay_rows sys c (row # rows) =
     (case c (row_key row) of
        None \<Rightarrow> replay_rows sys c rows
      | Some data \<Rightarrow>
          (case enriched_of sys row data of
             Inl e \<Rightarrow> []
           | Inr None \<Rightarrow> replay_rows sys c rows
           | Inr (Some r) \<Rightarrow> r # replay_rows sys c rows))"

definition store_all :: "enriched_row list \<Rightarrow> (int \<rightharpoonup> enriched_row) \<Rightarrow> (int \<rightharpoonup> enriched_row)" where
  "store_all rs db = fold (\<lambda>r db. db(row_movieId r \<mapsto> r)) rs db"

text \<open>A run from \<open>st\<close> to \<open>st1\<close> wrote what the replay of its final cache writes.\<close>

definition replayed :: "sys \<Rightarrow> movie_row list \<Rightarrow> state \<Rightarrow> state \<Rightarrow> bool" where
  "replayed sys rows st st1 \<longleftrightarrow>
     movies_enriched st1 = store_all (replay_rows sys (cache st1) rows) (movies_enriched st)
     \<and> (\<forall>r. Upsert r \<in> set (trace st1) \<longrightarrow>
            Upsert r \<in> set (trace st) \<or> r \<in> set (replay_rows sys (cache st1) rows))"

text \<open>The state in which the loop of a run of \<open>enrich_movies\<close> ends.\<close>

definition loop_end :: "sys \<Rightarrow> string option \<Rightarrow> (string \<rightharpoonup> json) option \<Rightarrow> state \<Rightarrow> state" where
  "loop_end sys k m w = left_by (enrich_loop sys k m (movies w) (init_run w))"

text \<open>The events a step or a run adds to the trace, between two of its states.\<close>

definition events_after :: "state \<Rightarrow> state \<Rightarrow> event list" where
  "events_after st st' = drop (length (trace st)) (trace st')"

text \<open>Whether \<open>execute\<close> can bind the four values taken from the payload as they are.\<close>

definition bindable :: "json \<Rightarrow> bool" where
  "bindable v = (case bind_param v of Inl e \<Rightarrow> False | Inr x \<Rightarrow> True)"

definition binds :: "(string \<times> json) list \<Rightarrow> bool" where
  "binds d =
     (bindable (dict_get d ''Director'') \<and> bindable (dict_get d ''Plot'')
      \<and> bindable (dict_get d ''BoxOffice'') \<and> bindable (dict_get d ''imdbID''))"

section \<open>Sample inputs\<close>

text \<open>
  A stand-in for \<open>float\<close> on the sample inputs: a float is returned as it is, the
  string \<open>8.1\<close> gives the double nearest to 8.1, and the other strings used below are no
  numbers.
\<close>

definition float_sample :: "json \<Rightarrow> 64 word option" where
  "float_sample v =
     (case v of
        JFloat f \<Rightarrow> Some f
      | JStr s \<Rightarrow> if s = ''8.1'' then Some 0x4020333333333333 else None
      | _ \<Rightarrow> None)"

text \<open>A network on which every request raises.\<close>

definition offline :: sys where
  "offline =
     \<lparr>requests_get = (\<lambda>n params. Inl (RequestException ''unreachable'')),
      py_float = float_sample\<rparr>"

text \<open>A network that answers every request with status 200 and the given body.\<close>

definition answering :: "json \<Rightarrow> sys" where
  "answering body =
     \<lparr>requests_get = (\<lambda>n params. Inr \<lparr>status_code = 200, json_body = Inr body\<rparr>),
      py_float = float_sample\<rparr>"

definition payload_x :: json where
  "payload_x =
     JObj [(''Director'', JStr ''X''), (''imdbRating'', JStr ''8.1''), (''Response'', JStr ''True'')]"

text \<open>One base record, no enriched row, and the given cache file.\<close>

definition world_of :: "cache_file \<Rightarrow> state" where
  "world_of f =
     \<lparr>cache_file = f, movies = [(1, ''Title'', Some 1995, Some ''Drama'')],
      movies_enriched = Map.empty, trace = [], calls = 0, cache = Map.empty,
      processed = 0, hits = 0, misses = 0\<rparr>"

definition row_x :: enriched_row where
  "row_x =
     \<lparr>row_movieId = 1, row_title = ''Title'', row_year = Some 1995,
      row_genres = Some ''Drama'', row_director = SqlText ''X'', row_plot = SqlNull,
      row_box_office = SqlNull, row_imdb_rating = Some 0x4020333333333333,
      row_imdb_id = SqlNull, row_other_fields = [(''Response'', JStr ''True'')]\<rparr>"

definition mock_args :: args where
  "mock_args = \<lparr>arg_omdb_key = None, arg_use_omdb = False, arg_mock_omdb = True\<rparr>"

definition twin_world :: state where
  "twin_world =
     (world_of Missing)\<lparr>movies := [(1, ''Title'', Some 1995, Some ''Drama''),
                                  (2, ''Title'', Some 1995, None)]\<rparr>"

definition twin_resolved :: state where
  "twin_resolved =
     \<lparr>cache_file = Stored [''Title|1995'' \<mapsto> payload_x],
      movies = [(1, ''Title'', Some 1995, Some ''Drama''), (2, ''Title'', Some 1995, None)],
      movies_enriched = Map.empty,
      trace = [QueryOmdb ''Title'' (Some 1995), SaveCache, Sleep],
      calls = 1, cache = [''Title|1995'' \<mapsto> payload_x],
      processed = 0, hits = 0, misses = 1\<rparr>"

definition twin_stored :: state where
  "twin_stored =
     twin_resolved\<lparr>movies_enriched := [1 \<mapsto> row_x],
                    trace := trace twin_resolved @ [Upsert row_x, Commit],
                    processed := 1\<rparr>"

definition rated_payload :: json where
  "rated_payload = JObj [(''Title'', JStr ''Toy Story''), (''Rated'', JStr ''G'')]"

definition row_rated :: enriched_row where
  "row_rated =
     \<lparr>row_movieId = 1, row_title = ''Title'', row_year = Some 1995,
      row_genres = Some ''Drama'', row_director = SqlNull, row_plot = SqlNull,
      row_box_office = SqlNull, row_imdb_rating = None, row_imdb_id = SqlNull,
      row_other_fields = [(''Rated'', JStr ''G'')]\<rparr>"

text \<open>
  A world after an earlier run: rows for ids 1 and 7 are stored, the base table holds id 1
  only, and the cache now says that its title was not found.
\<close>

definition stale_world :: state where
  "stale_world =
     (world_of (Stored [''Title|1995'' \<mapsto> JObj [(''Response'', JStr ''False'')]]))
       \<lparr>movies_enriched := [1 \<mapsto> row_x, 7 \<mapsto> row_x\<lparr>row_movieId := 7\<rparr>]\<rparr>"

section \<open>Effects of the steps\<close>

lemmas effect_defs = emit_def log_def save_cache_def sleep_def upsert_enriched_def commit_def

lemma resolve_hit:
  "cache st (cache_key title year) = Some data \<Longrightarrow>
   resolve sys k m (movieId, title, year, genres) st = Resolved data (st\<lparr>hits := hits st + 1\<rparr>)"
  by (simp add: resolve_def)

lemma resolve_skip:
  "cache st (cache_key title year) = None \<Longrightarrow> \<not> truthy_str k \<Longrightarrow>
   resolve sys k None (movieId, title, year, genres) st
     = Skipped (st\<lparr>trace := trace st @ [Log (NoKeySkip (cache_key title year))]\<rparr>)"
  by (simp add: resolve_def effect_defs)

lemma query_omdb_state:
  "snd (query_omdb sys title year k st)
     = st\<lparr>calls := calls st + 1, trace := trace st @ [QueryOmdb title year]\<rparr>"
  by (simp add: query_omdb_def effect_defs Let_def split: sum.splits)

lemma query_omdbD:
  "query_omdb sys title year k st = (res, st1) \<Longrightarrow>
   st1 = st\<lparr>calls := calls st + 1, trace := trace st @ [QueryOmdb title year]\<rparr>"
  using query_omdb_state [of sys title year k st] by simp

lemma resolve_SkippedD:
  assumes "resolve sys k m row st = Skipped st1"
  shows "cache st (row_key row) = None \<and> m = None \<and> \<not> truthy_str k
         \<and> st1 = st\<lparr>trace := trace st @ [Log (NoKeySkip (row_key row))]\<rparr>"
  using assms
  by (cases row)
     (auto simp: resolve_def row_key_def cache_miss_def effect_defs Let_def
           split: option.splits if_splits prod.splits sum.splits)

lemma resolve_ResolvedD:
  assumes "resolve sys k m row st = Resolved data st1"
  shows "cache st1 (row_key row) = Some data \<and> cache st \<subseteq>\<^sub>m cache st1
         \<and> movies_enriched st1 = movies_enriched st \<and> movies st1 = movies st
         \<and> (load_cache (cache_file st) = cache st \<longrightarrow> load_cache (cache_file st1) = cache st1)
         \<and> (cache st (row_key row) \<noteq> None \<longrightarrow> cache st1 = cache st \<and> cache_file st1 = cache_file st \<and> trace st1 = trace st \<and> calls st1 = calls st)"
  using assms
  by (cases row)
     (auto simp: resolve_def row_key_def cache_miss_def effect_defs Let_def load_cache_def map_le_def
           split: option.splits if_splits prod.splits sum.splits dest!: query_omdbD)

lemma persist_cases:
  "persist sys row data st = res \<Longrightarrow>
     (\<exists>e. enriched_of sys row data = Inl e \<and> res = Inl (e, st))
   \<or> (enriched_of sys row data = Inr None \<and> res = Inr st)
   \<or> (\<exists>r. enriched_of sys row data = Inr (Some r)
          \<and> res = Inr (st\<lparr>movies_enriched := (movies_enriched st)(row_movieId r \<mapsto> r),
                             trace := trace st @ [Upsert r, Commit],
                             processed := processed st + 1\<rparr>))"
  by (auto simp: persist_def effect_defs split: sum.splits option.splits)

lemma enriched_of_movieId:
  "enriched_of sys row data = Inr (Some r) \<Longrightarrow> row_movieId r = fst row"
  by (cases row)
     (auto simp: enriched_of_def build_row_def split: if_splits json.splits sum.splits)

lemma imdb_rating_of_cong:
  "py_float sys2 = py_float sys1 \<Longrightarrow> imdb_rating_of sys2 d = imdb_rating_of sys1 d"
  by (simp add: imdb_rating_of_def)

lemma build_row_cong:
  "py_float sys2 = py_float sys1 \<Longrightarrow> build_row sys2 row d = build_row sys1 row d"
  by (cases row) (simp add: build_row_def imdb_rating_of_cong [of sys2 sys1] split: sum.splits)

lemma enriched_of_cong:
  "py_float sys2 = py_float sys1 \<Longrightarrow> enriched_of sys2 row data = enriched_of sys1 row data"
  by (simp add: enriched_of_def build_row_cong [of sys2 sys1] split: json.splits)

lemma replay_rows_cong:
  "py_float sys2 = py_float sys1 \<Longrightarrow> replay_rows sys2 c rows = replay_rows sys1 c rows"
  by (induction rows) (simp_all add: enriched_of_cong [of sys2 sys1] split: option.splits sum.splits)

lemma nokey_step_cache:
  assumes "\<not> truthy_str k"
  shows "cache (left_by (enrich_step sys k None row st)) = cache st"
proof -
  show ?thesis
  proof (cases "resolve sys k None row st")
    case (Skipped st1)
    then show ?thesis
      using resolve_SkippedD [OF Skipped] by (simp add: enrich_step_def left_by_def)
  next
    case (Resolved data st1)
    have "cache st (row_key row) \<noteq> None"
      using Resolved assms
      by (cases row) (auto simp: resolve_def row_key_def Let_def split: option.splits)
    then have c: "cache st1 = cache st"
      using resolve_ResolvedD [OF Resolved] by simp
    show ?thesis
      using persist_cases [OF refl, of sys row data st1] c Resolved
      by (auto simp: enrich_step_def left_by_def)
  qed
qed

lemma left_by_simps [simp]: "left_by (Inl (e, st)) = st" "left_by (Inr st) = st"
  by (simp_all add: left_by_def)

lemma left_by_persist:
  "left_by (persist sys row data st) = st
   \<or> (\<exists>r. enriched_of sys row data = Inr (Some r)
        \<and> left_by (persist sys row data st)
            = st\<lparr>movies_enriched := (movies_enriched st)(row_movieId r \<mapsto> r),
                  trace := trace st @ [Upsert r, Commit],
                  processed := processed st + 1\<rparr>)"
  using persist_cases [OF refl, of sys row data st] by auto

lemma step_invariants:
  fixes st :: state and sys k m row
  defines "st' \<equiv> left_by (enrich_step sys k m row st)"
  shows "cache st \<subseteq>\<^sub>m cache st'"
    and "movies st' = movies st"
    and "load_cache (cache_file st) = cache st \<Longrightarrow> load_cache (cache_file st') = cache st'"
proof -
  show "cache st \<subseteq>\<^sub>m cache st'"
  proof (cases "resolve sys k m row st")
    case (Skipped st1)
    then show ?thesis
      using resolve_SkippedD [OF Skipped] by (simp add: st'_def enrich_step_def)
  next
    case (Resolved data st1)
    then show ?thesis
      using resolve_ResolvedD [OF Resolved] left_by_persist [of sys row data st1]
      by (auto simp: st'_def enrich_step_def)
  qed
  show "movies st' = movies st"
  proof (cases "resolve sys k m row st")
    case (Skipped st1)
    then show ?thesis
      using resolve_SkippedD [OF Skipped] by (simp add: st'_def enrich_step_def)
  next
    case (Resolved data st1)
    then show ?thesis
      using resolve_ResolvedD [OF Resolved] left_by_persist [of sys row data st1]
      by (auto simp: st'_def enrich_step_def)
  qed
  show "load_cache (cache_file st') = cache st'" if "load_cache (cache_file st) = cache st"
  proof (cases "resolve sys k m row st")
    case (Skipped st1)
    then show ?thesis
      using resolve_SkippedD [OF Skipped] that by (simp add: st'_def enrich_step_def)
  next
    case (Resolved data st1)
    then show ?thesis
      using resolve_ResolvedD [OF Resolved] left_by_persist [of sys row data st1] that
      by (auto simp: st'_def enrich_step_def)
  qed
qed

lemma enrich_loop_Cons_left:
  "left_by (enrich_loop sys k m (row # rows) st)
     = (case enrich_step sys k m row st of
          Inl err \<Rightarrow> snd err
        | Inr st1 \<Rightarrow> left_by (enrich_loop sys k m rows st1))"
  by (auto simp: left_by_def split: sum.splits)

lemma loop_invariants:
  "cache st \<subseteq>\<^sub>m cache (left_by (enrich_loop sys k m rows st))"
  "movies (left_by (enrich_loop sys k m rows st)) = movies st"
  "load_cache (cache_file st) = cache st \<Longrightarrow>
     load_cache (cache_file (left_by (enrich_loop sys k m rows st)))
       = cache (left_by (enrich_loop sys k m rows st))"
proof (induction rows arbitrary: st)
  case Nil
  { case 1 show ?case by simp }
  { case 2 show ?case by simp }
  { case 3 then show ?case by simp }
next
  case (Cons row rows)
  { case 1 show ?case
    proof (cases "enrich_step sys k m row st")
      case (Inl err)
      then show ?thesis using step_invariants(1) [of st sys k m row]
        by (cases err) (simp add: enrich_loop_Cons_left)
    next
      case (Inr st1)
      then show ?thesis
        using step_invariants(1) [of st sys k m row] Cons.IH(1) [of st1]
        by (auto simp: enrich_loop_Cons_left intro: map_le_trans)
    qed }
  { case 2 show ?case
    proof (cases "enrich_step sys k m row st")
      case (Inl err)
      then show ?thesis using step_invariants(2) [of sys k m row st]
        by (cases err) (simp add: enrich_loop_Cons_left)
    next
      case (Inr st1)
      then show ?thesis
        using step_invariants(2) [of sys k m row st] Cons.IH(2) [of st1]
        by (auto simp: enrich_loop_Cons_left)
    qed }
  { case 3 show ?case
    proof (cases "enrich_step sys k m row st")
      case (Inl err)
      then show ?thesis using step_invariants(3) [of st sys k m row] 3
        by (cases err) (simp add: enrich_loop_Cons_left)
    next
      case (Inr st1)
      then show ?thesis
        using step_invariants(3) [of st sys k m row] Cons.IH(3) [of st1] 3
        by (auto simp: enrich_loop_Cons_left)
    qed }
qed

lemma nokey_loop_cache:
  "\<not> truthy_str k \<Longrightarrow> cache (left_by (enrich_loop sys k None rows st)) = cache st"
proof (induction rows arbitrary: st)
  case Nil
  show ?case by simp
next
  case (Cons row rows)
  show ?case
  proof (cases "enrich_step sys k None row st")
    case (Inl err)
    then show ?thesis using nokey_step_cache [OF Cons.prems, of sys row st]
      by (cases err) (simp add: enrich_loop_Cons_left)
  next
    case (Inr st1)
    then show ?thesis
      using nokey_step_cache [OF Cons.prems, of sys row st] Cons.IH [OF Cons.prems, of st1]
      by (simp add: enrich_loop_Cons_left)
  qed
qed

lemma store_all_simps [simp]:
  "store_all [] db = db"
  "store_all (r # rs) db = store_all rs (db(row_movieId r \<mapsto> r))"
  by (simp_all add: store_all_def)

lemma store_all_map_add: "store_all rs db = db ++ store_all rs Map.empty"
proof (induction rs arbitrary: db)
  case Nil
  show ?case by simp
next
  case (Cons r rs)
  let ?S = "store_all rs Map.empty"
  have "store_all (r # rs) db = store_all rs (db(row_movieId r \<mapsto> r))"
    by (simp only: store_all_simps)
  also have "\<dots> = db(row_movieId r \<mapsto> r) ++ ?S"
    by (rule Cons.IH)
  also have "\<dots> = db ++ (Map.empty(row_movieId r \<mapsto> r) ++ ?S)"
    by (rule ext) (simp add: map_add_def split: option.splits)
  also have "Map.empty(row_movieId r \<mapsto> r) ++ ?S = store_all rs (Map.empty(row_movieId r \<mapsto> r))"
    by (rule Cons.IH [symmetric])
  also have "\<dots> = store_all (r # rs) Map.empty"
    by (simp only: store_all_simps)
  finally show ?case .
qed

lemma store_all_twice: "store_all rs (store_all rs db) = store_all rs db"
proof -
  let ?S = "store_all rs Map.empty"
  have "store_all rs (store_all rs db) = store_all rs db ++ ?S"
    by (rule store_all_map_add)
  also have "\<dots> = (db ++ ?S) ++ ?S"
    using store_all_map_add [of rs db] by simp
  also have "\<dots> = db ++ ?S"
    by (rule ext) (simp add: map_add_def split: option.splits)
  also have "\<dots> = store_all rs db"
    by (rule store_all_map_add [symmetric])
  finally show ?thesis .
qed

lemma store_all_member:
  "distinct (map row_movieId rs) \<Longrightarrow> r \<in> set rs \<Longrightarrow> store_all rs db (row_movieId r) = Some r"
proof (induction rs arbitrary: db)
  case Nil
  then show ?case by simp
next
  case (Cons a rs)
  have notin: "\<And>db. row_movieId a \<notin> row_movieId ` set rs \<Longrightarrow> store_all rs db (row_movieId a) = db (row_movieId a)"
  proof -
    fix db :: "int \<rightharpoonup> enriched_row"
    assume "row_movieId a \<notin> row_movieId ` set rs"
    then show "store_all rs db (row_movieId a) = db (row_movieId a)"
      by (induction rs arbitrary: db) auto
  qed
  show ?case
  proof (cases "r = a")
    case True
    then show ?thesis using Cons.prems notin by simp
  next
    case False
    then show ?thesis using Cons.prems Cons.IH by simp
  qed
qed

lemma resolve_Resolved_upserts:
  assumes "resolve sys k m row st = Resolved data st1"
  shows "(Upsert r \<in> set (trace st1)) = (Upsert r \<in> set (trace st))"
  using assms
  by (cases row)
     (auto simp: resolve_def cache_miss_def effect_defs Let_def
           split: option.splits if_splits prod.splits sum.splits dest!: query_omdbD)

lemma map_le_lookup: "c \<subseteq>\<^sub>m c' \<Longrightarrow> c x = Some v \<Longrightarrow> c' x = Some v"
  by (metis domI map_le_def)

lemma store_all_append: "store_all (xs @ ys) db = store_all ys (store_all xs db)"
  by (simp add: store_all_def)

lemma replayed_step:
  assumes "replayed sys rows sb st1"
    and "replay_rows sys (cache st1) (row # rows) = pre @ replay_rows sys (cache st1) rows"
    and "movies_enriched sb = store_all pre (movies_enriched st)"
    and "\<And>r. Upsert r \<in> set (trace sb) \<Longrightarrow> Upsert r \<in> set (trace st) \<or> r \<in> set pre"
  shows "replayed sys (row # rows) st st1"
proof -
  have "movies_enriched st1 = store_all (replay_rows sys (cache st1) rows) (movies_enriched sb)"
    using assms(1) by (simp add: replayed_def)
  then have db: "movies_enriched st1
      = store_all (replay_rows sys (cache st1) (row # rows)) (movies_enriched st)"
    by (simp only: assms(2) assms(3) store_all_append)
  have tr: "Upsert r \<in> set (trace st) \<or> r \<in> set (replay_rows sys (cache st1) (row # rows))"
    if "Upsert r \<in> set (trace st1)" for r
  proof -
    have "Upsert r \<in> set (trace sb) \<or> r \<in> set (replay_rows sys (cache st1) rows)"
      using assms(1) that by (simp add: replayed_def)
    then show ?thesis
      using assms(4) [of r] by (auto simp only: assms(2) set_append Un_iff)
  qed
  show ?thesis
    unfolding replayed_def using db tr by blast
qed

lemma loop_replay:
  "replayed sys rows st (left_by (enrich_loop sys k m rows st))"
proof (induction rows arbitrary: st)
  case Nil
  show ?case by (simp add: replayed_def)
next
  case (Cons row rows)
  let ?st1 = "left_by (enrich_loop sys k m (row # rows) st)"
  show ?case
  proof (cases "resolve sys k m row st")
    case (Skipped sa)
    note D = resolve_SkippedD [OF Skipped]
    have step: "enrich_step sys k m row st = Inr sa"
      using Skipped by (simp add: enrich_step_def)
    have st1: "?st1 = left_by (enrich_loop sys k m rows sa)"
      using step by (simp add: enrich_loop_Cons_left)
    have "cache ?st1 = cache sa"
      using D nokey_loop_cache [of k sys rows sa] st1 by simp
    then have none: "cache ?st1 (row_key row) = None"
      using D by simp
    have "replayed sys (row # rows) st ?st1"
    proof (rule replayed_step [where pre = "[]" and sb = sa])
      show "replayed sys rows sa ?st1"
        unfolding st1 by (rule Cons.IH)
      show "replay_rows sys (cache ?st1) (row # rows) = [] @ replay_rows sys (cache ?st1) rows"
        using none by simp
      show "movies_enriched sa = store_all [] (movies_enriched st)"
        using D by simp
      show "Upsert r \<in> set (trace st) \<or> r \<in> set []" if "Upsert r \<in> set (trace sa)" for r
        using D that by simp
    qed
    then show ?thesis .
  next
    case (Resolved data sa)
    note D = resolve_ResolvedD [OF Resolved]
    note U = resolve_Resolved_upserts [OF Resolved]
    have step: "enrich_step sys k m row st = persist sys row data sa"
      using Resolved by (simp add: enrich_step_def)
    consider (raise) e where "enriched_of sys row data = Inl e" and "persist sys row data sa = Inl (e, sa)"
      | (no_row) "enriched_of sys row data = Inr None" and "persist sys row data sa = Inr sa"
      | (written) r where "enriched_of sys row data = Inr (Some r)" and
          "persist sys row data sa
             = Inr (sa\<lparr>movies_enriched := (movies_enriched sa)(row_movieId r \<mapsto> r),
                         trace := trace sa @ [Upsert r, Commit],
                         processed := processed sa + 1\<rparr>)"
      using persist_cases [OF refl, of sys row data sa] by blast
    then show ?thesis
    proof cases
      case raise
      have st1: "?st1 = sa"
        using step raise by (simp add: enrich_loop_Cons_left)
      have "replay_rows sys (cache sa) (row # rows) = []"
        using D raise by simp
      then show ?thesis
        unfolding st1 replayed_def using D U by simp
    next
      case no_row
      have st1: "?st1 = left_by (enrich_loop sys k m rows sa)"
        using step no_row by (simp add: enrich_loop_Cons_left)
      have key: "cache ?st1 (row_key row) = Some data"
        unfolding st1 by (rule map_le_lookup [OF loop_invariants(1)]) (use D in simp)
      have "replayed sys (row # rows) st ?st1"
      proof (rule replayed_step [where pre = "[]" and sb = sa])
        show "replayed sys rows sa ?st1"
          unfolding st1 by (rule Cons.IH)
        show "replay_rows sys (cache ?st1) (row # rows) = [] @ replay_rows sys (cache ?st1) rows"
          using key no_row by simp
        show "movies_enriched sa = store_all [] (movies_enriched st)"
          using D by simp
        show "Upsert r \<in> set (trace st) \<or> r \<in> set []" if "Upsert r \<in> set (trace sa)" for r
          using U that by simp
      qed
      then show ?thesis .
    next
      case written
      define sb where "sb = sa\<lparr>movies_enriched := (movies_enriched sa)(row_movieId r \<mapsto> r),
                         trace := trace sa @ [Upsert r, Commit],
                         processed := processed sa + 1\<rparr>"
      have st1: "?st1 = left_by (enrich_loop sys k m rows sb)"
        using step written by (simp add: enrich_loop_Cons_left sb_def)
      have "cache sb (row_key row) = Some data"
        using D by (simp add: sb_def)
      then have key: "cache ?st1 (row_key row) = Some data"
        unfolding st1 by (rule map_le_lookup [OF loop_invariants(1)])
      have "replayed sys (row # rows) st ?st1"
      proof (rule replayed_step [where pre = "[r]" and sb = sb])
        show "replayed sys rows sb ?st1"
          unfolding st1 by (rule Cons.IH)
        show "replay_rows sys (cache ?st1) (row # rows) = [r] @ replay_rows sys (cache ?st1) rows"
          using key written by simp
        show "movies_enriched sb = store_all [r] (movies_enriched st)"
          using D by (simp add: sb_def)
        show "Upsert x \<in> set (trace st) \<or> x \<in> set [r]" if "Upsert x \<in> set (trace sb)" for x
          using U [of x] that by (auto simp: sb_def)
      qed
      then show ?thesis .
    qed
  qed
qed

lemma resolve_hit_row:
  "cache st (row_key row) = Some data \<Longrightarrow>
   resolve sys k m row st = Resolved data (st\<lparr>hits := hits st + 1\<rparr>)"
  by (cases row) (simp add: resolve_def row_key_def)

lemma step_hit:
  "cache st (row_key row) = Some data \<Longrightarrow>
   enrich_step sys k m row st = persist sys row data (st\<lparr>hits := hits st + 1\<rparr>)"
  by (simp add: enrich_step_def resolve_hit_row)

lemma rerun_cache:
  assumes fl: "py_float sys2 = py_float sys1" and md: "(m2 = None) = (m1 = None)"
  shows "cache st2 = cache (left_by (enrich_loop sys1 k m1 rows st)) \<Longrightarrow>
         cache (left_by (enrich_loop sys2 k m2 rows st2)) = cache st2"
proof (induction rows arbitrary: st st2)
  case Nil
  show ?case by simp
next
  case (Cons row rows)
  let ?st1 = "left_by (enrich_loop sys1 k m1 (row # rows) st)"
  let ?h = "st2\<lparr>hits := hits st2 + 1\<rparr>"
  show ?case
  proof (cases "resolve sys1 k m1 row st")
    case (Skipped sa)
    note D = resolve_SkippedD [OF Skipped]
    have "m2 = None" using D md by simp
    then show ?thesis
      using D nokey_loop_cache [of k sys2 "row # rows" st2] by simp
  next
    case (Resolved data sa)
    note D = resolve_ResolvedD [OF Resolved]
    have step: "enrich_step sys1 k m1 row st = persist sys1 row data sa"
      using Resolved by (simp add: enrich_step_def)
    have eo: "enriched_of sys2 row data = enriched_of sys1 row data"
      by (rule enriched_of_cong [OF fl])
    consider (raise) e where "enriched_of sys1 row data = Inl e" and "persist sys1 row data sa = Inl (e, sa)"
      | (no_row) "enriched_of sys1 row data = Inr None" and "persist sys1 row data sa = Inr sa"
      | (written) r where "enriched_of sys1 row data = Inr (Some r)" and
          "persist sys1 row data sa
             = Inr (sa\<lparr>movies_enriched := (movies_enriched sa)(row_movieId r \<mapsto> r),
                         trace := trace sa @ [Upsert r, Commit],
                         processed := processed sa + 1\<rparr>)"
      using persist_cases [OF refl, of sys1 row data sa] by blast
    then show ?thesis
    proof cases
      case raise
      have st1: "?st1 = sa"
        using step raise by (simp add: enrich_loop_Cons_left)
      have key: "cache st2 (row_key row) = Some data"
        using Cons.prems D unfolding st1 by simp
      have "enrich_step sys2 k m2 row st2 = Inl (e, ?h)"
        using step_hit [OF key, of sys2 k m2] raise eo by (simp add: persist_def)
      then show ?thesis
        by (simp add: enrich_loop_Cons_left)
    next
      case no_row
      have st1: "?st1 = left_by (enrich_loop sys1 k m1 rows sa)"
        using step no_row by (simp add: enrich_loop_Cons_left)
      have "cache ?st1 (row_key row) = Some data"
        unfolding st1 by (rule map_le_lookup [OF loop_invariants(1)]) (use D in simp)
      then have key: "cache st2 (row_key row) = Some data"
        using Cons.prems by simp
      have s2: "enrich_step sys2 k m2 row st2 = Inr ?h"
        using step_hit [OF key, of sys2 k m2] no_row eo by (simp add: persist_def)
      have "cache ?h = cache (left_by (enrich_loop sys1 k m1 rows sa))"
        using Cons.prems unfolding st1 by simp
      from Cons.IH [OF this] show ?thesis
        using s2 by (simp add: enrich_loop_Cons_left)
    next
      case written
      define sb where "sb = sa\<lparr>movies_enriched := (movies_enriched sa)(row_movieId r \<mapsto> r),
                         trace := trace sa @ [Upsert r, Commit],
                         processed := processed sa + 1\<rparr>"
      define hb where "hb = ?h\<lparr>movies_enriched := (movies_enriched ?h)(row_movieId r \<mapsto> r),
                         trace := trace ?h @ [Upsert r, Commit],
                         processed := processed ?h + 1\<rparr>"
      have st1: "?st1 = left_by (enrich_loop sys1 k m1 rows sb)"
        using step written by (simp add: enrich_loop_Cons_left sb_def)
      have "cache sb (row_key row) = Some data"
        using D by (simp add: sb_def)
      then have "cache ?st1 (row_key row) = Some data"
        unfolding st1 by (rule map_le_lookup [OF loop_invariants(1)])
      then have key: "cache st2 (row_key row) = Some data"
        using Cons.prems by simp
      have s2: "enrich_step sys2 k m2 row st2 = Inr hb"
        using step_hit [OF key, of sys2 k m2] written eo
        by (simp add: persist_def effect_defs hb_def)
      have "cache hb = cache (left_by (enrich_loop sys1 k m1 rows sb))"
        using Cons.prems unfolding st1 by (simp add: hb_def)
      from Cons.IH [OF this] show ?thesis
        using s2 by (simp add: enrich_loop_Cons_left hb_def)
    qed
  qed
qed

lemma replay_rows_ids:
  "r \<in> set (replay_rows sys c rows) \<Longrightarrow> row_movieId r \<in> fst ` set rows"
proof (induction rows)
  case Nil
  then show ?case by simp
next
  case (Cons row rows)
  show ?case
  proof (cases "c (row_key row)")
    case None
    then show ?thesis using Cons by simp
  next
    case (Some data)
    show ?thesis
    proof (cases "enriched_of sys row data")
      case (Inl e)
      then show ?thesis using Cons Some by simp
    next
      case (Inr x)
      show ?thesis
      proof (cases x)
        case None
        then show ?thesis using Cons Some Inr by simp
      next
        case (Some r')
        have "row_movieId r' = fst row"
          using Inr Some by (simp add: enriched_of_movieId)
        then show ?thesis
          using Cons \<open>c (row_key row) = Some data\<close> Inr Some by auto
      qed
    qed
  qed
qed

lemma replay_rows_distinct:
  "distinct (map fst rows) \<Longrightarrow> distinct (map row_movieId (replay_rows sys c rows))"
proof (induction rows)
  case Nil
  show ?case by simp
next
  case (Cons row rows)
  have fresh: "fst row \<notin> row_movieId ` set (replay_rows sys c rows)"
  proof
    assume "fst row \<in> row_movieId ` set (replay_rows sys c rows)"
    then obtain y where y: "y \<in> set (replay_rows sys c rows)" "fst row = row_movieId y"
      by (rule imageE)
    have "fst row \<in> fst ` set rows"
      using replay_rows_ids [OF y(1)] y(2) by simp
    then show False
      using Cons.prems by simp
  qed
  have IH: "distinct (map row_movieId (replay_rows sys c rows))"
    using Cons by simp
  show ?case
  proof (cases "c (row_key row)")
    case None
    then show ?thesis using IH by simp
  next
    case (Some data)
    show ?thesis
    proof (cases "enriched_of sys row data")
      case (Inl e)
      then show ?thesis using Some by simp
    next
      case (Inr x)
      show ?thesis
      proof (cases x)
        case None
        then show ?thesis using IH Some Inr by simp
      next
        case (Some r')
        have "row_movieId r' = fst row"
          using Inr Some by (simp add: enriched_of_movieId)
        then have "row_movieId r' \<notin> row_movieId ` set (replay_rows sys c rows)"
          using fresh by simp
        then show ?thesis
          using IH \<open>c (row_key row) = Some data\<close> Inr Some by simp
      qed
    qed
  qed
qed

lemma init_run_fields [simp]:
  "cache (init_run w) = load_cache (cache_file w)"
  "cache_file (init_run w) = cache_file w"
  "movies (init_run w) = movies w"
  "movies_enriched (init_run w) = movies_enriched w"
  "trace (init_run w) = trace w"
  by (simp_all add: init_run_def)

lemma enrich_movies_left:
  fixes w :: state and sys k m
  defines "w1 \<equiv> left_by (enrich_movies sys k m w)"
  shows "movies w1 = movies w"
    and "load_cache (cache_file w1) = cache (loop_end sys k m w)"
    and "movies_enriched w1 = movies_enriched (loop_end sys k m w)"
    and "(Upsert r \<in> set (trace w1)) = (Upsert r \<in> set (trace (loop_end sys k m w)))"
proof -
  let ?L = "enrich_loop sys k m (movies w) (init_run w)"
  have mv: "movies (left_by ?L) = movies w"
    using loop_invariants(2) [of sys k m "movies w" "init_run w"] by simp
  have sy: "load_cache (cache_file (left_by ?L)) = cache (left_by ?L)"
    by (rule loop_invariants(3)) simp
  show "movies w1 = movies w"
    using mv by (cases ?L) (auto simp: w1_def enrich_movies_def effect_defs)
  show "load_cache (cache_file w1) = cache (loop_end sys k m w)"
    using sy by (cases ?L) (auto simp: w1_def loop_end_def enrich_movies_def effect_defs load_cache_def)
  show "movies_enriched w1 = movies_enriched (loop_end sys k m w)"
    by (cases ?L) (auto simp: w1_def loop_end_def enrich_movies_def effect_defs)
  show "(Upsert r \<in> set (trace w1)) = (Upsert r \<in> set (trace (loop_end sys k m w)))"
    by (cases ?L) (auto simp: w1_def loop_end_def enrich_movies_def effect_defs)
qed

lemma enrich_movies_rerun:
  assumes fl: "py_float sys2 = py_float sys1" and md: "(m2 = None) = (m1 = None)"
    and w1: "w1 = left_by (enrich_movies sys1 k m1 w)"
    and start: "cache_file w1' = cache_file w1" "movies w1' = movies w1"
               "movies_enriched w1' = movies_enriched w1"
    and w2: "w2 = left_by (enrich_movies sys2 k m2 w1')"
  shows "movies_enriched w2 = movies_enriched w1"
    and "distinct (map fst (movies w)) \<Longrightarrow> Upsert r \<in> set (trace w2) \<Longrightarrow>
           Upsert r \<in> set (trace w1') \<or> movies_enriched w1 (row_movieId r) = Some r"
proof -
  let ?rows = "movies w"
  let ?L1 = "loop_end sys1 k m1 w"
  let ?L2 = "loop_end sys2 k m2 w1'"
  let ?W = "replay_rows sys1 (cache ?L1) ?rows"
  have rows': "movies w1' = ?rows"
    using start(2) enrich_movies_left(1) [of sys1 k m1 w] w1 by simp
  have c0: "cache (init_run w1') = cache ?L1"
    using start(1) enrich_movies_left(2) [of sys1 k m1 w] w1 by simp
  have c2: "cache ?L2 = cache ?L1"
    using rerun_cache [OF fl md, of "init_run w1'" k ?rows "init_run w"] c0 rows'
    by (simp add: loop_end_def)
  have r1: "replayed sys1 ?rows (init_run w) ?L1"
    unfolding loop_end_def by (rule loop_replay)
  have r2: "replayed sys2 ?rows (init_run w1') ?L2"
    unfolding loop_end_def rows' [symmetric] by (rule loop_replay)
  have W2: "replay_rows sys2 (cache ?L2) ?rows = ?W"
    using c2 replay_rows_cong [OF fl] by simp
  have db1: "movies_enriched ?L1 = store_all ?W (movies_enriched w)"
    using r1 by (simp add: replayed_def)
  have db1': "movies_enriched w1 = store_all ?W (movies_enriched w)"
    using db1 enrich_movies_left(3) [of sys1 k m1 w] w1 by simp
  have "movies_enriched ?L2 = store_all ?W (movies_enriched w1')"
    using r2 W2 by (simp add: replayed_def)
  then have db2: "movies_enriched ?L2 = movies_enriched w1"
    using start(3) db1' store_all_twice [of ?W "movies_enriched w"] by simp
  show "movies_enriched w2 = movies_enriched w1"
    using db2 enrich_movies_left(3) [of sys2 k m2 w1'] w2 by simp
  show "Upsert r \<in> set (trace w1') \<or> movies_enriched w1 (row_movieId r) = Some r"
    if d: "distinct (map fst (movies w))" and u: "Upsert r \<in> set (trace w2)"
  proof -
    have "Upsert r \<in> set (trace ?L2)"
      using u enrich_movies_left(4) [of r sys2 k m2 w1'] w2 by simp
    then have "Upsert r \<in> set (trace w1') \<or> r \<in> set ?W"
      using r2 W2 by (auto simp: replayed_def)
    moreover have "movies_enriched w1 (row_movieId r) = Some r" if "r \<in> set ?W"
      unfolding db1' by (rule store_all_member [OF replay_rows_distinct [OF d] that])
    ultimately show ?thesis by blast
  qed
qed

lemma log_fields [simp]:
  "cache_file (log msg w) = cache_file w"
  "movies (log msg w) = movies w"
  "movies_enriched (log msg w) = movies_enriched w"
  "trace (log msg w) = trace w @ [Log msg]"
  by (simp_all add: effect_defs)

lemmas run_defs = main_enrich_def enrich_movies_def init_run_def enrich_step_def resolve_def
  persist_def enriched_of_def build_row_def imdb_rating_of_def other_of_def excluded_keys_def
  response_ok_def dict_get_def dict_get_default_def cache_miss_def query_omdb_def query_params_def
  load_cache_def cache_key_def truthy_str_def effect_defs left_by_def

lemmas sample_defs = world_of_def mock_args_def offline_def answering_def payload_x_def
  float_sample_def row_x_def

lemma str_int_1995: "str_int 1995 = ''1995''"
  by (simp add: str_int_def str_nat.simps digit_char_def)

lemma events_after_append [simp]: "trace st' = trace st @ evs \<Longrightarrow> events_after st st' = evs"
  by (simp add: events_after_def)

lemma events_after_same [simp]: "trace st' = trace st \<Longrightarrow> events_after st st' = []"
  by (simp add: events_after_def)

text \<open>A hit: the step only normalises and persists.\<close>

lemma step_hit_cases:
  fixes st :: state
  defines "h \<equiv> st\<lparr>hits := hits st + 1\<rparr>"
  assumes "cache st (row_key row) = Some data"
  shows "(\<exists>e. enrich_step sys k m row st = Inl (e, h))
       \<or> enrich_step sys k m row st = Inr h
       \<or> (\<exists>r. enrich_step sys k m row st
                = Inr (h\<lparr>movies_enriched := (movies_enriched h)(row_movieId r \<mapsto> r),
                         trace := trace h @ [Upsert r, Commit],
                         processed := processed h + 1\<rparr>))"
  using persist_cases [OF refl, of sys row data h] step_hit [OF assms(2), of sys k m]
  by (auto simp: h_def)

lemma step_hit_quiet:
  assumes "cache st (row_key row) = Some data"
  shows "calls (left_by (enrich_step sys k m row st)) = calls st"
    and "Sleep \<notin> set (events_after st (left_by (enrich_step sys k m row st)))"
    and "SaveCache \<notin> set (events_after st (left_by (enrich_step sys k m row st)))"
    and "QueryOmdb t y \<notin> set (events_after st (left_by (enrich_step sys k m row st)))"
  using step_hit_cases [OF assms, where sys = sys and k = k and m = m] by auto

text \<open>A miss that is resolved: the four ways through lines 148 to 164.\<close>

lemma resolve_mock_miss:
  assumes "cache st (cache_key title year) = None"
  shows "resolve sys k (Some mock) (movieId, title, year, genres) st
         = Resolved (case mock (cache_key title year) of Some v \<Rightarrow> v | None \<Rightarrow> JNull)
             (st\<lparr>cache := (cache st)(cache_key title year \<mapsto>
                      (case mock (cache_key title year) of Some v \<Rightarrow> v | None \<Rightarrow> JNull)),
                 misses := misses st + 1,
                 cache_file := Stored ((cache st)(cache_key title year \<mapsto>
                      (case mock (cache_key title year) of Some v \<Rightarrow> v | None \<Rightarrow> JNull))),
                 trace := trace st @ [SaveCache, Sleep]\<rparr>)"
  using assms by (simp add: resolve_def cache_miss_def effect_defs Let_def)

lemma resolve_live_ok:
  assumes "cache st (cache_key title year) = None" and "truthy_str k"
    and "fst (query_omdb sys title year k st) = Inr data"
  shows "resolve sys k None (movieId, title, year, genres) st
         = Resolved data
             (st\<lparr>calls := calls st + 1,
                 cache := (cache st)(cache_key title year \<mapsto> data),
                 misses := misses st + 1,
                 cache_file := Stored ((cache st)(cache_key title year \<mapsto> data)),
                 trace := trace st @ [QueryOmdb title year, SaveCache, Sleep]\<rparr>)"
proof -
  have "query_omdb sys title year k st
        = (Inr data, st\<lparr>calls := calls st + 1, trace := trace st @ [QueryOmdb title year]\<rparr>)"
    using assms(3) query_omdb_state [of sys title year k st] by (metis prod.collapse)
  then show ?thesis
    using assms(1,2) by (simp add: resolve_def cache_miss_def effect_defs Let_def)
qed

lemma resolve_live_failed:
  assumes "cache st (cache_key title year) = None" and "truthy_str k"
    and "fst (query_omdb sys title year k st) = Inl e"
  shows "resolve sys k None (movieId, title, year, genres) st
         = Resolved JNull
             (st\<lparr>calls := calls st + 1,
                 cache := (cache st)(cache_key title year \<mapsto> JNull),
                 misses := misses st + 1,
                 cache_file := Stored ((cache st)(cache_key title year \<mapsto> JNull)),
                 trace := trace st @ [QueryOmdb title year, Log (RequestFailed title year e),
                                      SaveCache, Sleep]\<rparr>)"
proof -
  have "query_omdb sys title year k st
        = (Inl e, st\<lparr>calls := calls st + 1, trace := trace st @ [QueryOmdb title year]\<rparr>)"
    using assms(3) query_omdb_state [of sys title year k st] by (metis prod.collapse)
  then show ?thesis
    using assms(1,2) by (simp add: resolve_def cache_miss_def effect_defs Let_def)
qed

text \<open>What the resolution of a record adds to the trace.\<close>

lemma resolve_trace:
  fixes st :: state and title year
  defines "key \<equiv> cache_key title year"
  assumes "resolve sys k m (movieId, title, year, genres) st = res"
  shows "(cache st key \<noteq> None \<and> (\<exists>data. res = Resolved data (st\<lparr>hits := hits st + 1\<rparr>)))
       \<or> (cache st key = None \<and> m = None \<and> \<not> truthy_str k
            \<and> res = Skipped (st\<lparr>trace := trace st @ [Log (NoKeySkip key)]\<rparr>))
       \<or> (cache st key = None \<and> m \<noteq> None
            \<and> (\<exists>data st1. res = Resolved data st1 \<and> calls st1 = calls st
                   \<and> trace st1 = trace st @ [SaveCache, Sleep]))
       \<or> (cache st key = None \<and> m = None \<and> truthy_str k
            \<and> (\<exists>data st1. res = Resolved data st1 \<and> calls st1 = calls st + 1
                   \<and> (trace st1 = trace st @ [QueryOmdb title year, SaveCache, Sleep]
                        \<or> (\<exists>e. trace st1 = trace st @ [QueryOmdb title year,
                                   Log (RequestFailed title year e), SaveCache, Sleep]))))"
proof (cases "cache st key")
  case (Some data)
  then show ?thesis
    using assms(2) resolve_hit [of st title year data sys k m movieId genres]
    by (auto simp: key_def)
next
  case None
  note miss = None [unfolded key_def]
  show ?thesis
  proof (cases m)
    case (Some mock)
    then show ?thesis
      using assms(2) None resolve_mock_miss [OF miss, of sys k mock movieId genres]
      by (auto simp: key_def)
  next
    case nomock: None
    show ?thesis
    proof (cases "truthy_str k")
      case False
      then show ?thesis
        using assms(2) None nomock resolve_skip [OF miss False, of sys movieId genres]
        by (auto simp: key_def)
    next
      case True
      show ?thesis
      proof (cases "fst (query_omdb sys title year k st)")
        case (Inl e)
        then show ?thesis
          using assms(2) None nomock True resolve_live_failed [OF miss True Inl, of movieId genres]
          by (auto simp: key_def)
      next
        case (Inr data)
        then show ?thesis
          using assms(2) None nomock True resolve_live_ok [OF miss True Inr, of movieId genres]
          by (auto simp: key_def)
      qed
    qed
  qed
qed

lemma left_by_persist_trace:
  "calls (left_by (persist sys row data st)) = calls st
   \<and> (trace (left_by (persist sys row data st)) = trace st
        \<or> (\<exists>r. trace (left_by (persist sys row data st)) = trace st @ [Upsert r, Commit]))"
  using left_by_persist [of sys row data st] by auto

lemma count_list_append: "count_list (xs @ ys) x = count_list xs x + count_list ys x"
  by (induction xs) auto

lemma digit_char_in: "d < 10 \<Longrightarrow> digit_char d \<in> set ''0123456789''"
  unfolding digit_char_def by (rule nth_mem) simp

lemma str_nat_last: "str_nat n \<noteq> [] \<and> last (str_nat n) \<in> set ''0123456789''"
proof (cases "n < 10")
  case True
  then show ?thesis
    using digit_char_in [of n] by (subst str_nat.simps, subst (2) str_nat.simps) simp
next
  case False
  have "n mod 10 < 10" by simp
  then show ?thesis
    using False digit_char_in [of "n mod 10"]
    by (subst str_nat.simps, subst (2) str_nat.simps) simp
qed

lemma str_int_last: "str_int i \<noteq> [] \<and> last (str_int i) \<in> set ''0123456789''"
  using str_nat_last [of "nat i"] str_nat_last [of "nat (- i)"]
  by (simp add: str_int_def)

lemma cache_key_last:
  "last (cache_key title None) = CHR ''e''"
  "last (cache_key title (Some y)) \<in> set ''0123456789''"
  using str_int_last [of y] by (simp_all add: cache_key_def)

lemma cache_key_None_Some: "cache_key title None \<noteq> cache_key title' (Some y)"
proof
  assume "cache_key title None = cache_key title' (Some y)"
  then have "last (cache_key title None) = last (cache_key title' (Some y))"
    by simp
  then show False
    using cache_key_last(1) [of title] cache_key_last(2) [of title' y] by auto
qed

lemma step_events:
  fixes st :: state and sys k m movieId title year genres
  defines "st' \<equiv> left_by (enrich_step sys k m (movieId, title, year, genres) st)"
  defines "key \<equiv> cache_key title year"
  shows "\<exists>evs. trace st' = trace st @ evs
           \<and> count_list evs Sleep
               = (if cache st key = None \<and> (m \<noteq> None \<or> truthy_str k) then 1 else 0)
           \<and> (\<forall>t y. count_list evs (QueryOmdb t y)
               = (if cache st key = None \<and> m = None \<and> truthy_str k \<and> t = title \<and> y = year
                  then 1 else 0))"
proof -
  let ?row = "(movieId, title, year, genres)"
  consider
      (hit) data where "cache st key \<noteq> None"
        "resolve sys k m ?row st = Resolved data (st\<lparr>hits := hits st + 1\<rparr>)"
    | (skip) "cache st key = None" "m = None" "\<not> truthy_str k"
        "resolve sys k m ?row st = Skipped (st\<lparr>trace := trace st @ [Log (NoKeySkip key)]\<rparr>)"
    | (mock) data st1 where "cache st key = None" "m \<noteq> None"
        "resolve sys k m ?row st = Resolved data st1"
        "trace st1 = trace st @ [SaveCache, Sleep]"
    | (live) data st1 where "cache st key = None" "m = None" "truthy_str k"
        "resolve sys k m ?row st = Resolved data st1"
        "trace st1 = trace st @ [QueryOmdb title year, SaveCache, Sleep]
         \<or> (\<exists>e. trace st1 = trace st @ [QueryOmdb title year,
                    Log (RequestFailed title year e), SaveCache, Sleep])"
    using resolve_trace [where sys = sys and k = k and m = m and st = st
        and movieId = movieId and title = title and year = year and genres = genres, OF refl]
    unfolding key_def by (elim disjE conjE exE) (blast+)
  then show ?thesis
  proof cases
    case hit
    have "st' = left_by (persist sys ?row data (st\<lparr>hits := hits st + 1\<rparr>))"
      using hit(2) by (simp add: st'_def enrich_step_def)
    then obtain pe where pe: "trace st' = trace st @ pe" "pe = [] \<or> (\<exists>r. pe = [Upsert r, Commit])"
      using left_by_persist_trace [of sys ?row data "st\<lparr>hits := hits st + 1\<rparr>"] by auto
    show ?thesis
      by (rule exI [of _ pe]) (use pe hit(1) in auto)
  next
    case skip
    have "trace st' = trace st @ [Log (NoKeySkip key)]"
      using skip(4) by (simp add: st'_def enrich_step_def)
    then show ?thesis
      by (intro exI [of _ "[Log (NoKeySkip key)]"]) (use skip(1,2,3) in simp)
  next
    case mock
    have "st' = left_by (persist sys ?row data st1)"
      using mock(3) by (simp add: st'_def enrich_step_def)
    then obtain pe where pe: "trace st' = trace st @ ([SaveCache, Sleep] @ pe)"
        "pe = [] \<or> (\<exists>r. pe = [Upsert r, Commit])"
      using left_by_persist_trace [of sys ?row data st1] mock(4) by auto
    show ?thesis
      by (rule exI [of _ "[SaveCache, Sleep] @ pe"]) (use pe mock(1,2) in auto)
  next
    case live
    have st': "st' = left_by (persist sys ?row data st1)"
      using live(4) by (simp add: st'_def enrich_step_def)
    obtain pe where pe: "trace st' = trace st1 @ pe" "pe = [] \<or> (\<exists>r. pe = [Upsert r, Commit])"
      using left_by_persist_trace [of sys ?row data st1] st' by auto
    obtain le where le: "trace st1 = trace st @ le"
        "le = [QueryOmdb title year, SaveCache, Sleep]
         \<or> (\<exists>e. le = [QueryOmdb title year, Log (RequestFailed title year e), SaveCache, Sleep])"
      using live(5) by auto
    have 1: "trace st' = trace st @ (le @ pe)"
      using pe(1) le(1) by simp
    have 2: "count_list (le @ pe) Sleep = 1"
      using pe(2) le(2) by (auto simp: count_list_append)
    have 3: "count_list (le @ pe) (QueryOmdb t y) = (if t = title \<and> y = year then 1 else 0)" for t y
      using pe(2) le(2) by (auto simp: count_list_append)
    show ?thesis
      by (rule exI [of _ "le @ pe"]) (use 1 2 3 live(1,2,3) in simp)
  qed
qed

lemma step_query_count:
  "count_list (trace (left_by (enrich_step sys k m row st))) (QueryOmdb t y)
     = count_list (trace st) (QueryOmdb t y)
       + (if cache st (row_key row) = None \<and> m = None \<and> truthy_str k
             \<and> fst (snd row) = t \<and> fst (snd (snd row)) = y then 1 else 0)"
proof -
  obtain movieId title year genres where row: "row = (movieId, title, year, genres)"
    by (cases row)
  show ?thesis
    using step_events [of sys k m movieId title year genres st]
    by (auto simp: row row_key_def count_list_append)
qed

lemma step_cache_key:
  "cache st (row_key row) = None \<Longrightarrow> m \<noteq> None \<or> truthy_str k \<Longrightarrow>
   cache (left_by (enrich_step sys k m row st)) (row_key row) \<noteq> None"
proof (cases "resolve sys k m row st")
  case (Skipped st1)
  assume "m \<noteq> None \<or> truthy_str k"
  then show ?thesis
    using resolve_SkippedD [OF Skipped] by simp
next
  case (Resolved data st1)
  then show ?thesis
    using resolve_ResolvedD [OF Resolved] left_by_persist [of sys row data st1]
    by (auto simp: enrich_step_def)
qed

lemma left_by_loop_Cons:
  "left_by (enrich_loop sys k m (row # rows) st) = left_by (enrich_step sys k m row st)
   \<or> left_by (enrich_loop sys k m (row # rows) st)
       = left_by (enrich_loop sys k m rows (left_by (enrich_step sys k m row st)))"
  by (cases "enrich_step sys k m row st") auto

lemma loop_no_requery:
  "cache st (cache_key t y) \<noteq> None \<Longrightarrow>
   count_list (trace (left_by (enrich_loop sys k m rows st))) (QueryOmdb t y)
     = count_list (trace st) (QueryOmdb t y)"
proof (induction rows arbitrary: st)
  case Nil
  show ?case by simp
next
  case (Cons row rows)
  let ?s = "left_by (enrich_step sys k m row st)"
  have same: "count_list (trace ?s) (QueryOmdb t y) = count_list (trace st) (QueryOmdb t y)"
  proof -
    have "\<not> (cache st (row_key row) = None \<and> fst (snd row) = t \<and> fst (snd (snd row)) = y)"
      using Cons.prems by (cases row) (auto simp: row_key_def)
    then show ?thesis
      using step_query_count [of sys k m row st t y] by auto
  qed
  have "cache st \<subseteq>\<^sub>m cache ?s"
    by (rule step_invariants(1))
  then have key: "cache ?s (cache_key t y) \<noteq> None"
    using Cons.prems by (metis domIff map_le_def)
  show ?case
    using left_by_loop_Cons [of sys k m row rows st]
  proof
    assume "left_by (enrich_loop sys k m (row # rows) st) = ?s"
    then show ?thesis using same by simp
  next
    assume "left_by (enrich_loop sys k m (row # rows) st) = left_by (enrich_loop sys k m rows ?s)"
    then show ?thesis using same Cons.IH [OF key] by simp
  qed
qed

lemma loop_query_once:
  "count_list (trace (left_by (enrich_loop sys k m rows st))) (QueryOmdb t y)
     \<le> count_list (trace st) (QueryOmdb t y) + 1"
proof (induction rows arbitrary: st)
  case Nil
  show ?case by simp
next
  case (Cons row rows)
  let ?s = "left_by (enrich_step sys k m row st)"
  let ?inc = "cache st (row_key row) = None \<and> m = None \<and> truthy_str k
              \<and> fst (snd row) = t \<and> fst (snd (snd row)) = y"
  show ?case
  proof (cases ?inc)
    case True
    have one: "count_list (trace ?s) (QueryOmdb t y) = count_list (trace st) (QueryOmdb t y) + 1"
      using step_query_count [of sys k m row st t y] True by simp
    have "row_key row = cache_key t y"
      using True by (cases row) (auto simp: row_key_def)
    then have "cache ?s (cache_key t y) \<noteq> None"
      using step_cache_key [of st row m k sys] True by simp
    then have rest: "count_list (trace (left_by (enrich_loop sys k m rows ?s))) (QueryOmdb t y)
        = count_list (trace ?s) (QueryOmdb t y)"
      by (rule loop_no_requery)
    show ?thesis
      using left_by_loop_Cons [of sys k m row rows st]
    proof
      assume "left_by (enrich_loop sys k m (row # rows) st) = ?s"
      then show ?thesis using one by simp
    next
      assume "left_by (enrich_loop sys k m (row # rows) st) = left_by (enrich_loop sys k m rows ?s)"
      then show ?thesis using one rest by simp
    qed
  next
    case False
    have same: "count_list (trace ?s) (QueryOmdb t y) = count_list (trace st) (QueryOmdb t y)"
      using step_query_count [of sys k m row st t y] False by auto
    show ?thesis
      using left_by_loop_Cons [of sys k m row rows st]
    proof
      assume "left_by (enrich_loop sys k m (row # rows) st) = ?s"
      then show ?thesis using same by simp
    next
      assume "left_by (enrich_loop sys k m (row # rows) st) = left_by (enrich_loop sys k m rows ?s)"
      then show ?thesis using same Cons.IH [of ?s] by simp
    qed
  qed
qed

lemma enrich_movies_query_count:
  "count_list (trace (left_by (enrich_movies sys k m w))) (QueryOmdb t y)
     = count_list (trace (loop_end sys k m w)) (QueryOmdb t y)"
  by (cases "enrich_loop sys k m (movies w) (init_run w)")
     (auto simp: loop_end_def enrich_movies_def effect_defs count_list_append)

lemma build_row_binds:
  assumes "binds d"
  shows "\<exists>r. build_row sys (movieId, title, year, genres) d = Inr r
           \<and> row_movieId r = movieId \<and> row_title r = title \<and> row_year r = year
           \<and> row_genres r = genres
           \<and> row_imdb_rating r = imdb_rating_of sys d \<and> row_other_fields r = other_of d"
  using assms
  by (auto simp: binds_def bindable_def build_row_def split: sum.splits)

lemma build_row_not_binds:
  assumes "\<not> binds d"
  shows "\<exists>e. build_row sys row d = Inl e"
  using assms
  by (cases row) (auto simp: binds_def bindable_def build_row_def split: sum.splits)

lemma build_row_other:
  "build_row sys row d = Inr r \<Longrightarrow> row_other_fields r = other_of d"
  by (cases row) (auto simp: build_row_def split: sum.splits)

lemma persist_found:
  assumes "d \<noteq> []" and "response_ok d" and "build_row sys row d = Inr r"
  shows "persist sys row (JObj d) st
         = Inr (st\<lparr>movies_enriched := (movies_enriched st)(row_movieId r \<mapsto> r),
                   trace := trace st @ [Upsert r, Commit],
                   processed := processed st + 1\<rparr>)"
  using assms by (simp add: persist_def enriched_of_def effect_defs)

lemma persist_unbindable:
  assumes "d \<noteq> []" and "response_ok d" and "build_row sys row d = Inl e"
  shows "persist sys row (JObj d) st = Inl (e, st)"
  using assms by (simp add: persist_def enriched_of_def)

lemma resolve_Resolved_events:
  assumes "resolve sys k m row st = Resolved data st1"
  shows "\<exists>le. trace st1 = trace st @ le \<and> (\<forall>r. Upsert r \<notin> set le)"
  using assms
  by (cases row)
     (auto simp: resolve_def cache_miss_def effect_defs Let_def
           split: option.splits if_splits prod.splits sum.splits dest!: query_omdbD)

lemma step_upsert:
  assumes "Upsert r \<in> set (events_after st (left_by (enrich_step sys k m row st)))"
  shows "\<exists>data. cache (left_by (enrich_step sys k m row st)) (row_key row) = Some data
                \<and> enriched_of sys row data = Inr (Some r)"
proof (cases "resolve sys k m row st")
  case (Skipped st1)
  have "left_by (enrich_step sys k m row st)
        = st\<lparr>trace := trace st @ [Log (NoKeySkip (row_key row))]\<rparr>"
    using resolve_SkippedD [OF Skipped] Skipped by (simp add: enrich_step_def)
  then have "events_after st (left_by (enrich_step sys k m row st)) = [Log (NoKeySkip (row_key row))]"
    by simp
  then show ?thesis
    using assms by simp
next
  case (Resolved data st1)
  let ?st' = "left_by (enrich_step sys k m row st)"
  obtain le where le: "trace st1 = trace st @ le" "\<forall>r. Upsert r \<notin> set le"
    using resolve_Resolved_events [OF Resolved] by blast
  have key: "cache st1 (row_key row) = Some data"
    using resolve_ResolvedD [OF Resolved] by simp
  have st': "?st' = left_by (persist sys row data st1)"
    using Resolved by (simp add: enrich_step_def)
  consider (same) "?st' = st1"
    | (wrote) r' where "enriched_of sys row data = Inr (Some r')"
        "?st' = st1\<lparr>movies_enriched := (movies_enriched st1)(row_movieId r' \<mapsto> r'),
                      trace := trace st1 @ [Upsert r', Commit],
                      processed := processed st1 + 1\<rparr>"
    using left_by_persist [of sys row data st1] st' by auto
  then show ?thesis
  proof cases
    case same
    have "events_after st ?st' = le"
      using same le(1) by simp
    then show ?thesis
      using assms le(2) by simp
  next
    case wrote
    have "events_after st ?st' = le @ [Upsert r', Commit]"
      using wrote(2) le(1) by simp
    then have "r = r'"
      using assms le(2) by auto
    moreover have "cache ?st' (row_key row) = Some data"
      using wrote(2) key by simp
    ultimately show ?thesis
      using wrote(1) by simp
  qed
qed

lemma enriched_of_other:
  assumes "enriched_of sys row data = Inr (Some r)"
  shows "\<exists>d. data = JObj d \<and> row_other_fields r = other_of d"
  using assms
  by (auto simp: enriched_of_def split: if_splits json.splits sum.splits dest: build_row_other)

lemma store_all_other:
  "i \<notin> row_movieId ` set rs \<Longrightarrow> store_all rs db i = db i"
  by (induction rs arbitrary: db) auto

lemma store_all_dom: "dom db \<subseteq> dom (store_all rs db)"
proof (induction rs arbitrary: db)
  case Nil
  show ?case by simp
next
  case (Cons r rs)
  have "dom db \<subseteq> dom (db(row_movieId r \<mapsto> r))"
    by auto
  also have "\<dots> \<subseteq> dom (store_all rs (db(row_movieId r \<mapsto> r)))"
    by (rule Cons.IH)
  finally show ?case by simp
qed

lemma loop_store:
  "movies_enriched (left_by (enrich_loop sys k m rows st))
     = store_all (replay_rows sys (cache (left_by (enrich_loop sys k m rows st))) rows)
         (movies_enriched st)"
  using loop_replay [of sys rows st k m] by (simp add: replayed_def)

lemma loop_frame:
  assumes "i \<notin> fst ` set rows"
  shows "movies_enriched (left_by (enrich_loop sys k m rows st)) i = movies_enriched st i"
proof -
  let ?W = "replay_rows sys (cache (left_by (enrich_loop sys k m rows st))) rows"
  have "i \<notin> row_movieId ` set ?W"
    using assms replay_rows_ids [of _ sys _ rows] by blast
  then show ?thesis
    by (simp add: loop_store store_all_other)
qed

lemma loop_dom:
  "dom (movies_enriched st) \<subseteq> dom (movies_enriched (left_by (enrich_loop sys k m rows st)))"
  by (simp add: loop_store store_all_dom)

lemma loop_append:
  "enrich_loop sys k m pre st = Inr sa \<Longrightarrow>
   enrich_loop sys k m (pre @ rest) st = enrich_loop sys k m rest sa"
  by (induction pre arbitrary: st) (auto split: sum.splits)

lemma step_no_write:
  assumes "(\<exists>s. resolve sys k m row st = Skipped s)
         \<or> (\<exists>data s. resolve sys k m row st = Resolved data s
               \<and> (\<not> truthy data \<or> (\<exists>d. data = JObj d \<and> \<not> response_ok d)))"
  shows "\<exists>sa. enrich_step sys k m row st = Inr sa \<and> movies_enriched sa = movies_enriched st"
  using assms
proof (elim disjE exE conjE)
  fix s assume r: "resolve sys k m row st = Skipped s"
  show ?thesis
    using resolve_SkippedD [OF r] r by (simp add: enrich_step_def)
next
  fix data s assume r: "resolve sys k m row st = Resolved data s" and "\<not> truthy data"
  then have "enriched_of sys row data = Inr None"
    by (simp add: enriched_of_def)
  then show ?thesis
    using resolve_ResolvedD [OF r] r by (simp add: enrich_step_def persist_def)
next
  fix data s d
  assume r: "resolve sys k m row st = Resolved data s" and "data = JObj d" "\<not> response_ok d"
  then have "enriched_of sys row data = Inr None"
    by (simp add: enriched_of_def)
  then show ?thesis
    using resolve_ResolvedD [OF r] r by (simp add: enrich_step_def persist_def)
qed

section \<open>The claims\<close>

subsection \<open>Idempotence of a second run\<close>



subsection \<open>A cache hit\<close>

text \<open>
  Claim C2. A record whose key is in the mapping loaded from the cache file, once the loop
  reaches it, is processed without a call of \<open>requests.get\<close>, without a call of
  \<open>query_omdb\<close> for any title, and without the delay.
\<close>

theorem cache_hit_no_lookup_no_delay:
  assumes "load_cache (cache_file w) (cache_key title year) = Some data"
    and "enrich_loop sys api_key mock_cache pre (init_run w) = Inr st"
  shows "let st' = left_by (enrich_step sys api_key mock_cache (movieId, title, year, genres) st)
         in calls st' = calls st
            \<and> Sleep \<notin> set (events_after st st')
            \<and> (\<forall>t y. QueryOmdb t y \<notin> set (events_after st st'))"
proof -
  have "cache (init_run w) \<subseteq>\<^sub>m cache (left_by (enrich_loop sys api_key mock_cache pre (init_run w)))"
    by (rule loop_invariants(1))
  then have "cache (init_run w) \<subseteq>\<^sub>m cache st"
    using assms(2) by simp
  then have "cache st (cache_key title year) = Some data"
    using assms(1) by (auto intro: map_le_lookup)
  then have key: "cache st (row_key (movieId, title, year, genres)) = Some data"
    by (simp add: row_key_def)
  show ?thesis
    using step_hit_quiet [OF key, where sys = sys and k = api_key and m = mock_cache]
    by (simp add: Let_def)
qed

theorem cache_hit_no_lookup_no_delay_witness:
  "load_cache (cache_file (world_of (Stored [''Title|1995'' \<mapsto> payload_x])))
       (cache_key ''Title'' (Some 1995)) = Some payload_x
   \<and> enrich_loop offline (Some ''k'') None []
         (init_run (world_of (Stored [''Title|1995'' \<mapsto> payload_x])))
       = Inr (init_run (world_of (Stored [''Title|1995'' \<mapsto> payload_x])))
   \<and> (let st = init_run (world_of (Stored [''Title|1995'' \<mapsto> payload_x]));
           st' = left_by (enrich_step offline (Some ''k'') None (1, ''Title'', Some 1995, Some ''Drama'') st)
       in calls st' = calls st
          \<and> Sleep \<notin> set (events_after st st')
          \<and> (\<forall>t y. QueryOmdb t y \<notin> set (events_after st st')))"
proof -
  let ?w = "world_of (Stored [''Title|1995'' \<mapsto> payload_x])"
  have 1: "load_cache (cache_file ?w) (cache_key ''Title'' (Some 1995)) = Some payload_x"
    by (simp add: world_of_def load_cache_def cache_key_def str_int_1995)
  have 2: "enrich_loop offline (Some ''k'') None [] (init_run ?w) = Inr (init_run ?w)"
    by simp
  show ?thesis
    using cache_hit_no_lookup_no_delay [OF 1 2, of 1 "Some ''Drama''"] 1 2
    by (simp add: Let_def)
qed

subsection \<open>The delay\<close>




subsection \<open>A failed lookup\<close>



subsection \<open>One lookup for a title and year\<close>

text \<open>
  Claim C5. The key of a record is a function of its title and year alone, and a key made
  with no year differs from every key made with a year. In a run the lookup is called at
  most once for a title and year: once a record has been resolved and the loop has gone on,
  any record with the same title and year, whatever its id, finds the same value in the
  cache.
\<close>

theorem one_lookup_per_title_and_year:
  "row_key (movieId, title, year, genres) = row_key (movieId', title, year, genres')
   \<and> cache_key title None \<noteq> cache_key title' (Some y)
   \<and> count_list (trace (left_by (enrich_movies sys api_key mock_cache w))) (QueryOmdb title year)
       \<le> count_list (trace w) (QueryOmdb title year) + 1
   \<and> (resolve sys api_key mock_cache (movieId, title, year, genres) st = Resolved data sa
        \<and> enrich_step sys api_key mock_cache (movieId, title, year, genres) st = Inr sb
        \<and> enrich_loop sys api_key mock_cache mid sb = Inr sc
        \<longrightarrow> resolve sys api_key mock_cache (movieId', title, year, genres') sc
              = Resolved data (sc\<lparr>hits := hits sc + 1\<rparr>))"
proof -
  let ?r1 = "(movieId, title, year, genres)"
  have a: "row_key ?r1 = row_key (movieId', title, year, genres')"
    by (simp add: row_key_def)
  have b: "cache_key title None \<noteq> cache_key title' (Some y)"
    by (rule cache_key_None_Some)
  have c: "count_list (trace (left_by (enrich_movies sys api_key mock_cache w))) (QueryOmdb title year)
       \<le> count_list (trace w) (QueryOmdb title year) + 1"
    using loop_query_once [of sys api_key mock_cache "movies w" "init_run w" title year]
    by (simp add: enrich_movies_query_count loop_end_def)
  have d: "resolve sys api_key mock_cache (movieId', title, year, genres') sc
              = Resolved data (sc\<lparr>hits := hits sc + 1\<rparr>)"
    if r: "resolve sys api_key mock_cache ?r1 st = Resolved data sa"
      and s: "enrich_step sys api_key mock_cache ?r1 st = Inr sb"
      and l: "enrich_loop sys api_key mock_cache mid sb = Inr sc"
  proof -
    have "cache sa (row_key ?r1) = Some data"
      using resolve_ResolvedD [OF r] by simp
    moreover have "cache sb = cache sa"
      using s r left_by_persist [of sys ?r1 data sa] by (auto simp: enrich_step_def)
    ultimately have k1: "cache sb (cache_key title year) = Some data"
      by (simp add: row_key_def)
    have le: "cache sb \<subseteq>\<^sub>m cache sc"
      using loop_invariants(1) [of sb sys api_key mock_cache mid] l by simp
    have "cache sc (cache_key title year) = Some data"
      by (rule map_le_lookup [OF le k1])
    then show ?thesis
      by (rule resolve_hit)
  qed
  show ?thesis
  proof (intro conjI impI)
    show "row_key ?r1 = row_key (movieId', title, year, genres')" by (rule a)
    show "cache_key title None \<noteq> cache_key title' (Some y)" by (rule b)
    show "count_list (trace (left_by (enrich_movies sys api_key mock_cache w))) (QueryOmdb title year)
       \<le> count_list (trace w) (QueryOmdb title year) + 1" by (rule c)
    assume "resolve sys api_key mock_cache ?r1 st = Resolved data sa
        \<and> enrich_step sys api_key mock_cache ?r1 st = Inr sb
        \<and> enrich_loop sys api_key mock_cache mid sb = Inr sc"
    then show "resolve sys api_key mock_cache (movieId', title, year, genres') sc
              = Resolved data (sc\<lparr>hits := hits sc + 1\<rparr>)"
      using d by simp
  qed
qed

theorem one_lookup_per_title_and_year_witness:
  "resolve (answering payload_x) (Some ''k'') None (1, ''Title'', Some 1995, Some ''Drama'')
       (init_run twin_world) = Resolved payload_x twin_resolved
   \<and> enrich_step (answering payload_x) (Some ''k'') None (1, ''Title'', Some 1995, Some ''Drama'')
       (init_run twin_world) = Inr twin_stored
   \<and> enrich_loop (answering payload_x) (Some ''k'') None [] twin_stored = Inr twin_stored
   \<and> row_key (1, ''Title'', Some 1995, Some ''Drama'') = row_key (2, ''Title'', Some 1995, None)
   \<and> cache_key ''Title'' None \<noteq> cache_key ''Title'' (Some 1995)
   \<and> count_list (trace (left_by (enrich_movies (answering payload_x) (Some ''k'') None twin_world)))
         (QueryOmdb ''Title'' (Some 1995))
       \<le> count_list (trace twin_world) (QueryOmdb ''Title'' (Some 1995)) + 1
   \<and> resolve (answering payload_x) (Some ''k'') None (2, ''Title'', Some 1995, None) twin_stored
       = Resolved payload_x (twin_stored\<lparr>hits := hits twin_stored + 1\<rparr>)"
proof -
  let ?sys = "answering payload_x"
  let ?r1 = "(1 :: int, ''Title'', Some (1995 :: int), Some ''Drama'')"
  have 1: "resolve ?sys (Some ''k'') None ?r1 (init_run twin_world) = Resolved payload_x twin_resolved"
    by (simp add: run_defs sample_defs twin_world_def twin_resolved_def str_int_1995 Let_def)
  have 2: "enrich_step ?sys (Some ''k'') None ?r1 (init_run twin_world) = Inr twin_stored"
    by (simp add: run_defs sample_defs twin_world_def twin_resolved_def twin_stored_def
          str_int_1995 Let_def)
  have 3: "enrich_loop ?sys (Some ''k'') None [] twin_stored = Inr twin_stored"
    by simp
  show ?thesis
    using one_lookup_per_title_and_year
      [where sys = ?sys and api_key = "Some ''k''" and mock_cache = None
         and movieId = 1 and title = "''Title''" and year = "Some 1995"
         and genres = "Some ''Drama''" and movieId' = 2 and genres' = None
         and title' = "''Title''" and y = 1995 and w = twin_world
         and st = "init_run twin_world" and data = payload_x and sa = twin_resolved
         and sb = twin_stored and mid = "[]" and sc = twin_stored]
      1 2 3
    by simp
qed

subsection \<open>A rating that is no number\<close>




subsection \<open>No credential\<close>

text \<open>
  Claim C7. In live mode without a credential a record that misses the cache only adds a
  line to the log: the cache, the cache file and the enriched table stay as they are,
  nothing is saved, no delay is made, and the loop goes on with the next record.
\<close>

theorem no_credential_miss_is_skipped:
  assumes "\<not> truthy_str api_key"
    and "cache st (cache_key title year) = None"
  shows "let st' = st\<lparr>trace := trace st @ [Log (NoKeySkip (cache_key title year))]\<rparr>
         in enrich_step sys api_key None (movieId, title, year, genres) st = Inr st'
            \<and> enrich_loop sys api_key None ((movieId, title, year, genres) # rows) st
                = enrich_loop sys api_key None rows st'"
  using resolve_skip [OF assms(2) assms(1), of sys movieId genres]
  by (simp add: enrich_step_def Let_def)

theorem no_credential_miss_is_skipped_witness:
  "\<not> truthy_str None
   \<and> cache (init_run (world_of Missing)) (cache_key ''Title'' (Some 1995)) = None
   \<and> (let st = init_run (world_of Missing);
           st' = st\<lparr>trace := trace st @ [Log (NoKeySkip (cache_key ''Title'' (Some 1995)))]\<rparr>
       in enrich_step offline None None (1, ''Title'', Some 1995, Some ''Drama'') st = Inr st'
          \<and> enrich_loop offline None None [(1, ''Title'', Some 1995, Some ''Drama'')] st
              = enrich_loop offline None None [] st')"
proof -
  let ?st = "init_run (world_of Missing)"
  have 1: "\<not> truthy_str None"
    by (simp add: truthy_str_def)
  have 2: "cache ?st (cache_key ''Title'' (Some 1995)) = None"
    by (simp add: load_cache_def world_of_def)
  show ?thesis
    using no_credential_miss_is_skipped [OF 1 2, of offline 1 "Some ''Drama''" "[]"] 1 2
    by (simp add: Let_def)
qed

subsection \<open>The other fields\<close>

text \<open>
  Claim C8 as stated fails: the payload field \<open>Title\<close> is none of the five extracted
  ones, and it is left out of \<open>other_fields\<close>.
\<close>

theorem other_fields_counterexample:
  "movies_enriched
     (left_by (enrich_step offline None None (1, ''Title'', Some 1995, Some ''Drama'')
        (init_run (world_of (Stored [''Title|1995'' \<mapsto>
            JObj [(''Title'', JStr ''Toy Story''), (''Rated'', JStr ''G'')]])))))
     1
   = Some \<lparr>row_movieId = 1, row_title = ''Title'', row_year = Some 1995,
            row_genres = Some ''Drama'', row_director = SqlNull, row_plot = SqlNull,
            row_box_office = SqlNull, row_imdb_rating = None, row_imdb_id = SqlNull,
            row_other_fields = [(''Rated'', JStr ''G'')]\<rparr>"
  by (simp add: run_defs sample_defs str_int_1995 Let_def)

text \<open>
  Claim C8, as amended. The \<open>other_fields\<close> of every row a step writes are the items of
  the record's payload, in order, whose keys are none of the eight names \<open>Title\<close>,
  \<open>Year\<close>, \<open>Director\<close>, \<open>Plot\<close>, \<open>BoxOffice\<close>, \<open>imdbRating\<close>, \<open>imdbID\<close> and
  \<open>Genre\<close>.
\<close>

theorem other_fields_leave_out_eight_keys:
  assumes "Upsert r \<in> set (events_after st (left_by (enrich_step sys api_key mock_cache row st)))"
  shows "\<exists>d. cache (left_by (enrich_step sys api_key mock_cache row st)) (row_key row) = Some (JObj d)
           \<and> row_other_fields r
               = filter (\<lambda>(k, v). k \<notin> {''Title'', ''Year'', ''Director'', ''Plot'', ''BoxOffice'',
                                        ''imdbRating'', ''imdbID'', ''Genre''}) d"
proof -
  obtain data where data: "cache (left_by (enrich_step sys api_key mock_cache row st)) (row_key row) = Some data"
      "enriched_of sys row data = Inr (Some r)"
    using step_upsert [OF assms] by blast
  obtain d where d: "data = JObj d" "row_other_fields r = other_of d"
    using enriched_of_other [OF data(2)] by blast
  have "other_of d = filter (\<lambda>(k, v). k \<notin> {''Title'', ''Year'', ''Director'', ''Plot'', ''BoxOffice'',
                                        ''imdbRating'', ''imdbID'', ''Genre''}) d"
    by (simp add: other_of_def excluded_keys_def)
  then show ?thesis
    using data(1) d by simp
qed

theorem other_fields_leave_out_eight_keys_witness:
  "Upsert row_rated
     \<in> set (events_after (init_run (world_of (Stored [''Title|1995'' \<mapsto> rated_payload])))
              (left_by (enrich_step offline None None (1, ''Title'', Some 1995, Some ''Drama'')
                 (init_run (world_of (Stored [''Title|1995'' \<mapsto> rated_payload]))))))
   \<and> (\<exists>d. cache (left_by (enrich_step offline None None (1, ''Title'', Some 1995, Some ''Drama'')
                     (init_run (world_of (Stored [''Title|1995'' \<mapsto> rated_payload])))))
               (row_key (1, ''Title'', Some 1995, Some ''Drama'')) = Some (JObj d)
          \<and> row_other_fields row_rated
              = filter (\<lambda>(k, v). k \<notin> {''Title'', ''Year'', ''Director'', ''Plot'', ''BoxOffice'',
                                       ''imdbRating'', ''imdbID'', ''Genre''}) d)"
proof -
  let ?st = "init_run (world_of (Stored [''Title|1995'' \<mapsto> rated_payload]))"
  let ?row = "(1 :: int, ''Title'', Some (1995 :: int), Some ''Drama'')"
  have 1: "Upsert row_rated
     \<in> set (events_after ?st (left_by (enrich_step offline None None ?row ?st)))"
    by (simp add: run_defs sample_defs rated_payload_def row_rated_def events_after_def
          str_int_1995 Let_def)
  show ?thesis
    using other_fields_leave_out_eight_keys [OF 1] 1 by simp
qed

subsection \<open>A payload without the field Response\<close>




subsection \<open>Rows are only replaced\<close>

text \<open>
  Claim C10. A run of \<open>enrich_movies\<close>, whether it returns or raises, deletes no row of
  the enriched table and leaves the rows of ids outside the base table as they were; and
  when the record of an id that occurs once in the base table is skipped for lack of a
  credential, or resolves to a false value or to a payload flagged as not found, the row
  stored for that id is what it was before the run.
\<close>

theorem rows_are_only_replaced:
  "let w' = left_by (enrich_movies sys api_key mock_cache w)
   in dom (movies_enriched w) \<subseteq> dom (movies_enriched w')
      \<and> (\<forall>i. i \<notin> fst ` set (movies w) \<longrightarrow> movies_enriched w' i = movies_enriched w i)
      \<and> (movies w = pre @ (movieId, title, year, genres) # post
           \<and> movieId \<notin> fst ` set pre \<and> movieId \<notin> fst ` set post
           \<and> enrich_loop sys api_key mock_cache pre (init_run w) = Inr st
           \<and> ((\<exists>s. resolve sys api_key mock_cache (movieId, title, year, genres) st = Skipped s)
                \<or> (\<exists>data s. resolve sys api_key mock_cache (movieId, title, year, genres) st
                                 = Resolved data s
                       \<and> (\<not> truthy data \<or> (\<exists>d. data = JObj d \<and> \<not> response_ok d))))
           \<longrightarrow> movies_enriched w' movieId = movies_enriched w movieId)"
proof -
  let ?w' = "left_by (enrich_movies sys api_key mock_cache w)"
  let ?row = "(movieId, title, year, genres)"
  have db: "movies_enriched ?w' = movies_enriched (loop_end sys api_key mock_cache w)"
    by (rule enrich_movies_left(3))
  have a: "dom (movies_enriched w) \<subseteq> dom (movies_enriched ?w')"
    using loop_dom [of "init_run w" sys api_key mock_cache "movies w"]
    by (simp add: db loop_end_def)
  have b: "movies_enriched ?w' i = movies_enriched w i" if "i \<notin> fst ` set (movies w)" for i
    using loop_frame [OF that, of sys api_key mock_cache "init_run w"]
    by (simp add: db loop_end_def)
  have c: "movies_enriched ?w' movieId = movies_enriched w movieId"
    if rows: "movies w = pre @ ?row # post"
      and np: "movieId \<notin> fst ` set pre" and nq: "movieId \<notin> fst ` set post"
      and pre: "enrich_loop sys api_key mock_cache pre (init_run w) = Inr st"
      and skip: "(\<exists>s. resolve sys api_key mock_cache ?row st = Skipped s)
                \<or> (\<exists>data s. resolve sys api_key mock_cache ?row st = Resolved data s
                       \<and> (\<not> truthy data \<or> (\<exists>d. data = JObj d \<and> \<not> response_ok d)))"
  proof -
    obtain sa where sa: "enrich_step sys api_key mock_cache ?row st = Inr sa"
        "movies_enriched sa = movies_enriched st"
      using step_no_write [OF skip] by blast
    have "enrich_loop sys api_key mock_cache (movies w) (init_run w)
          = enrich_loop sys api_key mock_cache (?row # post) st"
      unfolding rows by (rule loop_append [OF pre])
    also have "\<dots> = enrich_loop sys api_key mock_cache post sa"
      using sa(1) by simp
    finally have "loop_end sys api_key mock_cache w
          = left_by (enrich_loop sys api_key mock_cache post sa)"
      by (simp add: loop_end_def)
    then have "movies_enriched ?w' movieId = movies_enriched sa movieId"
      using loop_frame [OF nq, of sys api_key mock_cache sa] by (simp add: db)
    also have "\<dots> = movies_enriched st movieId"
      using sa(2) by simp
    also have "\<dots> = movies_enriched (init_run w) movieId"
      using loop_frame [OF np, of sys api_key mock_cache "init_run w"] pre by simp
    finally show ?thesis by simp
  qed
  show ?thesis
    unfolding Let_def
  proof (intro conjI allI impI)
    show "dom (movies_enriched w) \<subseteq> dom (movies_enriched ?w')" by (rule a)
  next
    fix i assume "i \<notin> fst ` set (movies w)"
    then show "movies_enriched ?w' i = movies_enriched w i" by (rule b)
  next
    assume "movies w = pre @ ?row # post
           \<and> movieId \<notin> fst ` set pre \<and> movieId \<notin> fst ` set post
           \<and> enrich_loop sys api_key mock_cache pre (init_run w) = Inr st
           \<and> ((\<exists>s. resolve sys api_key mock_cache ?row st = Skipped s)
                \<or> (\<exists>data s. resolve sys api_key mock_cache ?row st = Resolved data s
                       \<and> (\<not> truthy data \<or> (\<exists>d. data = JObj d \<and> \<not> response_ok d))))"
    then show "movies_enriched ?w' movieId = movies_enriched w movieId"
      using c by blast
  qed
qed

theorem rows_are_only_replaced_witness:
  "movies stale_world = [] @ (1, ''Title'', Some 1995, Some ''Drama'') # []
   \<and> 1 \<notin> fst ` set ([] :: movie_row list)
   \<and> enrich_loop offline None (Some Map.empty) [] (init_run stale_world) = Inr (init_run stale_world)
   \<and> resolve offline None (Some Map.empty) (1, ''Title'', Some 1995, Some ''Drama'')
         (init_run stale_world)
       = Resolved (JObj [(''Response'', JStr ''False'')]) ((init_run stale_world)\<lparr>hits := 1\<rparr>)
   \<and> \<not> response_ok [(''Response'', JStr ''False'')]
   \<and> 7 \<notin> fst ` set (movies stale_world)
   \<and> (let w' = left_by (enrich_movies offline None (Some Map.empty) stale_world)
       in dom (movies_enriched stale_world) \<subseteq> dom (movies_enriched w')
          \<and> movies_enriched w' 7 = movies_enriched stale_world 7
          \<and> movies_enriched w' 1 = movies_enriched stale_world 1)"
proof -
  let ?row = "(1 :: int, ''Title'', Some (1995 :: int), Some ''Drama'')"
  let ?d = "[(''Response'', JStr ''False'')]"
  have 1: "movies stale_world = [] @ ?row # []"
    by (simp add: stale_world_def world_of_def)
  have 2: "1 \<notin> fst ` set ([] :: movie_row list)"
    by simp
  have 3: "enrich_loop offline None (Some Map.empty) [] (init_run stale_world)
      = Inr (init_run stale_world)"
    by simp
  have 4: "resolve offline None (Some Map.empty) ?row (init_run stale_world)
       = Resolved (JObj ?d) ((init_run stale_world)\<lparr>hits := 1\<rparr>)"
    by (simp add: resolve_def init_run_def stale_world_def world_of_def load_cache_def
          cache_key_def str_int_1995)
  have 5: "\<not> response_ok ?d"
    by (simp add: response_ok_def dict_get_default_def)
  have 6: "7 \<notin> fst ` set (movies stale_world)"
    by (simp add: stale_world_def world_of_def)
  have skip: "(\<exists>s. resolve offline None (Some Map.empty) ?row (init_run stale_world) = Skipped s)
      \<or> (\<exists>data s. resolve offline None (Some Map.empty) ?row (init_run stale_world) = Resolved data s
             \<and> (\<not> truthy data \<or> (\<exists>d. data = JObj d \<and> \<not> response_ok d)))"
    using 4 5 by blast
  note T = rows_are_only_replaced
    [where sys = offline and api_key = None and mock_cache = "Some Map.empty" and w = stale_world
       and pre = "[]" and post = "[]" and movieId = 1 and title = "''Title''"
       and year = "Some 1995" and genres = "Some ''Drama''" and st = "init_run stale_world",
     unfolded Let_def]
  have a: "dom (movies_enriched stale_world)
      \<subseteq> dom (movies_enriched (left_by (enrich_movies offline None (Some Map.empty) stale_world)))"
    using T by blast
  have b: "movies_enriched (left_by (enrich_movies offline None (Some Map.empty) stale_world)) 7
      = movies_enriched stale_world 7"
    using T 6 by blast
  have c: "movies_enriched (left_by (enrich_movies offline None (Some Map.empty) stale_world)) 1
      = movies_enriched stale_world 1"
    using T 1 2 3 skip by blast
  show ?thesis
    unfolding Let_def using 1 2 3 4 5 6 a b c by blast
qed

end
